theory Spec2Isabelle
  imports Main "HOL-Library.Word"
begin

section \<open>The Consul connection of hashi-ui: data model\<close>

text \<open>
  The theory embeds \<^verbatim>\<open>backend/consul_connection.go\<close>. A connection runs one goroutine
  per loop; the goroutines share the watch set and the channel \<^verbatim>\<open>send\<close>. Each loop is a
  function of the connection state and of a schedule: the list of what the loop meets,
  iteration after iteration (the destroy signal, the answer of the backend, a change of the
  observed property), each with the operations other goroutines did on the shared state in
  the meantime. A schedule is a finite prefix of a run: a loop that has consumed it without
  leaving is \<open>Running\<close>.
\<close>

subsection \<open>Actions\<close>

text \<open>
  The struct \<^verbatim>\<open>Action\<close> and the constants of its \<^verbatim>\<open>Type\<close> field are declared in another file
  of the package. The constants are the cases of one \<^verbatim>\<open>switch\<close>, hence pairwise different:
  they are the constructors below, and \<open>otherType\<close> is every other string.
  \<^verbatim>\<open>Payload\<close> is an \<^verbatim>\<open>interface{}\<close>: its dynamic type is the constructor.
  \<^verbatim>\<open>Index\<close> is a \<^verbatim>\<open>uint64\<close>, as \<^verbatim>\<open>LastIndex\<close> and \<^verbatim>\<open>WaitIndex\<close> of the Consul API are.
\<close>

datatype action_type =
    fetchConsulRegions | fetchedConsulRegions
  | watchConsulServices | unwatchConsulServices | fetchedConsulServices
  | watchConsulService | unwatchConsulService | fetchedConsulService
  | watchConsulNodes | unwatchConsulNodes | fetchedConsulNodes
  | watchConsulNode | unwatchConsulNode | fetchedConsulNode
  | otherType string

datatype payload =
    PNil
  | PString string
  | PNumber int
  | PObject "(string \<times> string) list"

record Action =
  Type :: action_type
  Payload :: payload
  Index :: "64 word"

subsection \<open>Effects and the connection\<close>

text \<open>\<^verbatim>\<open>api.QueryOptions\<close>, with the two fields the file sets; \<^verbatim>\<open>WaitTime\<close> in seconds.\<close>

record QueryOptions =
  WaitIndex :: "64 word"
  WaitTime :: nat

datatype level = Debug | Info | Warning | Error

text \<open>
  What a loop does besides changing the watch set and sending: a line of the log (level and
  format string), \<^verbatim>\<open>time.Sleep\<close> (seconds), a blocking query of the backend.
\<close>

datatype effect =
    Log level string
  | Sleep nat
  | HealthService string QueryOptions
  | HealthNode string QueryOptions

text \<open>
  The fields of \<^verbatim>\<open>ConsulConnection\<close> the loops work on: \<open>watches\<close> is the set of watch keys,
  \<open>send\<close> the actions sent on the channel \<^verbatim>\<open>c.send\<close> by the loops of the model, oldest first,
  \<open>send_closed\<close> whether the channel has been closed, \<open>trace\<close> the effects so far.
\<close>

record conn =
  watches :: "string set"
  send :: "Action list"
  send_closed :: bool
  trace :: "effect list"

text \<open>
  How a function call ends: it is still in its loop when the schedule ends, it has returned,
  or a panic has left it (no \<^verbatim>\<open>recover\<close> caught it).
\<close>

datatype outcome = Running | Returned | Panicked string

definition emit :: "effect list \<Rightarrow> conn \<Rightarrow> conn" where
  "emit es c = c\<lparr>trace := trace c @ es\<rparr>"

definition watches_Has :: "string \<Rightarrow> conn \<Rightarrow> bool" where
  "watches_Has k c = (k \<in> watches c)"

definition watches_Add :: "string \<Rightarrow> conn \<Rightarrow> conn" where
  "watches_Add k c = c\<lparr>watches := insert k (watches c)\<rparr>"

definition watches_Remove :: "string \<Rightarrow> conn \<Rightarrow> conn" where
  "watches_Remove k c = c\<lparr>watches := watches c - {k}\<rparr>"

text \<open>
  \<^verbatim>\<open>c.send <- a\<close>: a send on a closed channel panics (\<open>None\<close>); otherwise the action is
  handed over (the receiver, \<^verbatim>\<open>writePump\<close>, is taken to be ready).
\<close>

definition chan_send :: "Action \<Rightarrow> conn \<Rightarrow> conn option" where
  "chan_send a c = (if send_closed c then None else Some (c\<lparr>send := send c @ [a]\<rparr>))"

definition closed_channel :: string where
  "closed_channel = ''send on closed channel''"

definition interface_conversion :: string where
  "interface_conversion = ''interface conversion''"

subsection \<open>The other goroutines\<close>

text \<open>
  What the other goroutines of the connection do to the shared state while a loop is blocked:
  \<^verbatim>\<open>watches.Add\<close> (another watch), \<^verbatim>\<open>watches.Remove\<close> (an unwatch message),
  \<^verbatim>\<open>watches.Clear\<close> (the deferred function of \<^verbatim>\<open>readPump\<close>), \<^verbatim>\<open>close(c.send)\<close> (the hub).
\<close>

datatype env_op = EnvAdd string | EnvRemove string | EnvClear | EnvCloseSend

fun env_step :: "env_op \<Rightarrow> conn \<Rightarrow> conn" where
  "env_step (EnvAdd k) c = watches_Add k c"
| "env_step (EnvRemove k) c = watches_Remove k c"
| "env_step EnvClear c = c\<lparr>watches := {}\<rparr>"
| "env_step EnvCloseSend c = c\<lparr>send_closed := True\<rparr>"

fun env_run :: "env_op list \<Rightarrow> conn \<Rightarrow> conn" where
  "env_run [] c = c"
| "env_run (e # es) c = env_run es (env_step e c)"

section \<open>The outbound loop\<close>

text \<open>
  \<^verbatim>\<open>writePump\<close> receives from \<^verbatim>\<open>c.send\<close> until the channel is closed. The socket is the list of
  frames written with success, its log, and whether it has been closed. The schedule gives,
  for every action received, whether \<^verbatim>\<open>WriteJSON\<close> succeeds, and at the end whether the
  channel is closed (and then whether the close message can be written).
\<close>

datatype frame = JSONFrame Action | CloseFrame

record socket =
  written :: "frame list"
  attempted :: "frame list"
  socket_log :: "effect list"
  socket_closed :: bool

definition socket_write :: "frame \<Rightarrow> bool \<Rightarrow> string \<Rightarrow> socket \<Rightarrow> socket" where
  "socket_write f ok msg s =
     (if ok then s\<lparr>written := written s @ [f], attempted := attempted s @ [f]\<rparr>
      else s\<lparr>attempted := attempted s @ [f], socket_log := socket_log s @ [Log Error msg]\<rparr>)"

fun writePump :: "(Action \<times> bool) list \<Rightarrow> bool option \<Rightarrow> socket \<Rightarrow> outcome \<times> socket" where
  "writePump [] None s = (Running, s)"
| "writePump [] (Some ok) s =
     (Returned,
      (socket_write CloseFrame ok ''Could not write close message to websocket: %s'' s)
        \<lparr>socket_closed := True\<rparr>)"
| "writePump ((action, ok) # rest) closing s =
     writePump rest closing
       (socket_write (JSONFrame action) ok ''Could not write action to websocket: %s'' s)"

section \<open>Watching a broadcast property\<close>

text \<open>
  One iteration of the loop of \<^verbatim>\<open>watchGenericBroadcast\<close>: the destroy channel is ready, or
  the stream has a change, whose value is an \<^verbatim>\<open>*Action\<close> (\<open>Some\<close>) or of another dynamic type
  (\<open>None\<close>, the type assertion panics).
\<close>

datatype bcast_event = BDestroy | BChange "env_op list" "Action option"

fun broadcast_loop :: "string \<Rightarrow> action_type \<Rightarrow> bcast_event list \<Rightarrow> conn \<Rightarrow> outcome \<times> conn" where
  "broadcast_loop watchKey actionEvent [] c = (Running, c)"
| "broadcast_loop watchKey actionEvent (BDestroy # evs) c = (Returned, c)"
| "broadcast_loop watchKey actionEvent (BChange env v # evs) c =
     (let c1 = env_run env c in
      case v of
        None \<Rightarrow> (Panicked interface_conversion, c1)
      | Some channelAction \<Rightarrow>
          let c2 = emit [Log Debug ''got new data for %s (WaitIndex: %d)''] c1 in
          if \<not> watches_Has watchKey c2
          then (Returned, emit [Log Info ''Connection is no longer subscribed to %s''] c2)
          else if Type channelAction \<noteq> actionEvent
          then broadcast_loop watchKey actionEvent evs (emit [Log Debug ''Type mismatch: %s <> %s''] c2)
          else
            (case chan_send channelAction (emit [Log Debug ''Publishing change %s %s''] c2) of
               None \<Rightarrow> (Panicked closed_channel, emit [Log Debug ''Publishing change %s %s''] c2)
             | Some c3 \<Rightarrow> broadcast_loop watchKey actionEvent evs c3))"

text \<open>
  The deferred function of \<^verbatim>\<open>watchGenericBroadcast\<close>: it runs when the function returns and
  when it panics, removes the key, and recovers from the panic.
\<close>

fun broadcast_deferred :: "string \<Rightarrow> outcome \<times> conn \<Rightarrow> outcome \<times> conn" where
  "broadcast_deferred watchKey (Running, c) = (Running, c)"
| "broadcast_deferred watchKey (Returned, c) =
     (Returned, emit [Log Info ''Stopped watching %s''] (watches_Remove watchKey c))"
| "broadcast_deferred watchKey (Panicked r, c) =
     (Returned, emit [Log Info ''Stopped watching %s'', Log Warning ''Recover from panic: %s'']
                  (watches_Remove watchKey c))"

definition watchGenericBroadcast ::
  "string \<Rightarrow> action_type \<Rightarrow> bcast_event list \<Rightarrow> payload \<Rightarrow> conn \<Rightarrow> outcome \<times> conn" where
  "watchGenericBroadcast watchKey actionEvent prop initialPayload c =
     (if watches_Has watchKey c
      then (Returned, emit [Log Warning ''Connection is already subscribed to %s''] c)
      else
        broadcast_deferred watchKey
          (let c1 = emit [Log Debug ''Sending our current %s list''] (watches_Add watchKey c) in
           case chan_send \<lparr>Type = actionEvent, Payload = initialPayload, Index = 0\<rparr> c1 of
             None \<Rightarrow> (Panicked closed_channel, c1)
           | Some c2 \<Rightarrow>
               broadcast_loop watchKey actionEvent prop (emit [Log Debug ''Started watching %s''] c2)))"

definition unwatchGenericBroadcast :: "string \<Rightarrow> conn \<Rightarrow> conn" where
  "unwatchGenericBroadcast watchKey c =
     watches_Remove watchKey (emit [Log Debug ''Removing subscription for %s''] c)"

section \<open>Watching one service, one node\<close>

text \<open>
  One iteration of a per-entity loop: the destroy channel is ready, or the \<^verbatim>\<open>default\<close> branch
  queries the backend, which answers with an error or with a value and \<^verbatim>\<open>meta.LastIndex\<close>.
\<close>

datatype query_result = QueryError string | QueryOk payload "64 word"

datatype poll_event = Destroy | Poll "env_op list" query_result

fun service_loop :: "string \<Rightarrow> poll_event list \<Rightarrow> QueryOptions \<Rightarrow> conn \<Rightarrow> outcome \<times> QueryOptions \<times> conn" where
  "service_loop serviceID [] q c = (Running, q, c)"
| "service_loop serviceID (Destroy # evs) q c = (Returned, q, c)"
| "service_loop serviceID (Poll env r # evs) q c =
     (let c1 = env_run env (emit [HealthService serviceID q] c) in
      case r of
        QueryError err \<Rightarrow>
          service_loop serviceID evs q
            (emit [Log Error ''connection: unable to fetch consul service info: %s'', Sleep 10] c1)
      | QueryOk service remoteWaitIndex \<Rightarrow>
          if \<not> watches_Has serviceID c1 then (Returned, q, c1)
          else if remoteWaitIndex > WaitIndex q
          then
            (case chan_send \<lparr>Type = fetchedConsulService, Payload = service, Index = remoteWaitIndex\<rparr> c1 of
               None \<Rightarrow> (Panicked closed_channel, q, c1)
             | Some c2 \<Rightarrow>
                 service_loop serviceID evs \<lparr>WaitIndex = remoteWaitIndex, WaitTime = 10\<rparr>
                   (emit [Sleep 5] c2))
          else service_loop serviceID evs q c1)"

fun node_loop :: "string \<Rightarrow> poll_event list \<Rightarrow> QueryOptions \<Rightarrow> conn \<Rightarrow> outcome \<times> QueryOptions \<times> conn" where
  "node_loop nodeID [] q c = (Running, q, c)"
| "node_loop nodeID (Destroy # evs) q c = (Returned, q, c)"
| "node_loop nodeID (Poll env r # evs) q c =
     (let c1 = env_run env (emit [HealthNode nodeID q] c) in
      case r of
        QueryError err \<Rightarrow>
          node_loop nodeID evs q
            (emit [Log Error ''connection: unable to fetch consul node info: %s'', Sleep 10] c1)
      | QueryOk node remoteWaitIndex \<Rightarrow>
          if \<not> watches_Has nodeID c1 then (Returned, q, c1)
          else if remoteWaitIndex = WaitIndex q
          then node_loop nodeID evs q (emit [Sleep 5] c1)
          else
            (case chan_send \<lparr>Type = fetchedConsulNode, Payload = node, Index = remoteWaitIndex\<rparr> c1 of
               None \<Rightarrow> (Panicked closed_channel, q, c1)
             | Some c2 \<Rightarrow>
                 node_loop nodeID evs \<lparr>WaitIndex = remoteWaitIndex, WaitTime = 10\<rparr>
                   (emit [Sleep 5] c2)))"

text \<open>
  The deferred function of the two per-entity watches removes the key and logs; it does not
  call \<^verbatim>\<open>recover\<close>, so a panic goes on after it.
\<close>

fun entity_deferred :: "string \<Rightarrow> string \<Rightarrow> outcome \<times> QueryOptions \<times> conn \<Rightarrow> outcome \<times> conn" where
  "entity_deferred k msg (Running, q, c) = (Running, c)"
| "entity_deferred k msg (r, q, c) = (r, emit [Log Info msg] (watches_Remove k c))"

text \<open>The type assertion \<^verbatim>\<open>action.Payload.(string)\<close>: \<open>None\<close> is its panic.\<close>

fun payload_string :: "payload \<Rightarrow> string option" where
  "payload_string (PString s) = Some s"
| "payload_string _ = None"

definition watchConsulService_go :: "Action \<Rightarrow> poll_event list \<Rightarrow> conn \<Rightarrow> outcome \<times> conn" where
  "watchConsulService_go action evs c =
     (case payload_string (Payload action) of
        Some serviceID \<Rightarrow>
          if watches_Has serviceID c
          then (Returned, emit [Log Warning ''Connection is already subscribed to service %s''] c)
          else
            entity_deferred serviceID ''Stopped watching service with id: %s''
              (service_loop serviceID evs \<lparr>WaitIndex = 1, WaitTime = 0\<rparr>
                 (emit [Log Info ''Started watching service with id: %s''] (watches_Add serviceID c)))
      | None \<Rightarrow> (Panicked interface_conversion, c))"

definition watchConsulNode_go :: "Action \<Rightarrow> poll_event list \<Rightarrow> conn \<Rightarrow> outcome \<times> conn" where
  "watchConsulNode_go action evs c =
     (case payload_string (Payload action) of
        Some nodeID \<Rightarrow>
          if watches_Has nodeID c
          then (Returned, emit [Log Warning ''Connection is already subscribed to node %s''] c)
          else
            entity_deferred nodeID ''Stopped watching node with id: %s''
              (node_loop nodeID evs \<lparr>WaitIndex = 1, WaitTime = 0\<rparr>
                 (emit [Log Info ''Started watching node with id: %s''] (watches_Add nodeID c)))
      | None \<Rightarrow> (Panicked interface_conversion, c))"

subsection \<open>Schedules of a per-entity loop\<close>

text \<open>
  What the other goroutines do during an iteration; the iterations whose query fails; the
  iterations whose answer, if there is one, has an index of at most \<open>m\<close>; the iterations
  with such an answer and no other goroutine at work.
\<close>

fun poll_env :: "poll_event \<Rightarrow> env_op list" where
  "poll_env Destroy = []"
| "poll_env (Poll env r) = env"

fun query_fails :: "poll_event \<Rightarrow> bool" where
  "query_fails (Poll env (QueryError err)) = True"
| "query_fails _ = False"

fun index_at_most :: "64 word \<Rightarrow> poll_event \<Rightarrow> bool" where
  "index_at_most m (Poll env (QueryOk v remoteWaitIndex)) = (remoteWaitIndex \<le> m)"
| "index_at_most m _ = True"

fun quiet_answer_at_most :: "64 word \<Rightarrow> poll_event \<Rightarrow> bool" where
  "quiet_answer_at_most m (Poll env (QueryOk v remoteWaitIndex)) = (remoteWaitIndex \<le> m \<and> env = [])"
| "quiet_answer_at_most m _ = False"

text \<open>The indices of the answers of a schedule, in order.\<close>

fun answer_indices :: "poll_event list \<Rightarrow> 64 word list" where
  "answer_indices [] = []"
| "answer_indices (Poll env (QueryOk v remoteWaitIndex) # evs) = remoteWaitIndex # answer_indices evs"
| "answer_indices (e # evs) = answer_indices evs"

text \<open>
  A trace is spaced when no query of the backend follows another one directly: something
  (a sleep, a line of the log) lies between them.
\<close>

fun is_query :: "effect \<Rightarrow> bool" where
  "is_query (HealthService k q) = True"
| "is_query (HealthNode k q) = True"
| "is_query _ = False"

definition spaced :: "effect list \<Rightarrow> bool" where
  "spaced t = successively (\<lambda>x y. \<not> (is_query x \<and> is_query y)) t"

text \<open>What the other goroutines do during an iteration of the broadcast loop.\<close>

fun bcast_env :: "bcast_event \<Rightarrow> env_op list" where
  "bcast_env BDestroy = []"
| "bcast_env (BChange env v) = env"

section \<open>Dispatching an inbound action\<close>

text \<open>
  \<^verbatim>\<open>process\<close> starts a goroutine for a watch (\<open>spawned\<close>) and removes a key itself for an
  unwatch. The region holds the cached lists sent as the first payload of a broadcast watch.
\<close>

record region =
  services :: payload
  nodes :: payload

datatype stream = ServicesStream | NodesStream

datatype task =
    FetchRegions
  | WatchGenericBroadcast string action_type stream payload
  | WatchConsulService Action
  | WatchConsulNode Action

definition process :: "region \<Rightarrow> Action \<Rightarrow> conn \<Rightarrow> outcome \<times> task list \<times> conn" where
  "process r action c =
     (let c1 = emit [Log Debug ''Processing event %s (index %d)''] c in
      case Type action of
        fetchConsulRegions \<Rightarrow> (Returned, [FetchRegions], c1)
      | watchConsulServices \<Rightarrow>
          (Returned, [WatchGenericBroadcast ''services'' fetchedConsulServices ServicesStream (services r)], c1)
      | unwatchConsulServices \<Rightarrow> (Returned, [], unwatchGenericBroadcast ''services'' c1)
      | watchConsulService \<Rightarrow> (Returned, [WatchConsulService action], c1)
      | unwatchConsulService \<Rightarrow>
          (case payload_string (Payload action) of
             None \<Rightarrow> (Panicked interface_conversion, [], c1)
           | Some k \<Rightarrow> (Returned, [], watches_Remove k c1))
      | watchConsulNodes \<Rightarrow>
          (Returned, [WatchGenericBroadcast ''nodes'' fetchedConsulNodes NodesStream (nodes r)], c1)
      | unwatchConsulNodes \<Rightarrow> (Returned, [], unwatchGenericBroadcast ''nodes'' c1)
      | watchConsulNode \<Rightarrow> (Returned, [WatchConsulNode action], c1)
      | unwatchConsulNode \<Rightarrow>
          (case payload_string (Payload action) of
             None \<Rightarrow> (Panicked interface_conversion, [], c1)
           | Some k \<Rightarrow> (Returned, [], watches_Remove k c1))
      | _ \<Rightarrow> (Returned, [], emit [Log Warning ''Unknown action: %s''] c1))"

section \<open>Example states\<close>

definition conn0 :: conn where
  "conn0 = \<lparr>watches = {}, send = [], send_closed = False, trace = []\<rparr>"

definition conn_web :: conn where
  "conn_web = \<lparr>watches = {''web''}, send = [], send_closed = False, trace = []\<rparr>"

definition conn_closed :: conn where
  "conn_closed = \<lparr>watches = {}, send = [], send_closed = True, trace = []\<rparr>"

definition watch_web :: Action where
  "watch_web = \<lparr>Type = watchConsulService, Payload = PString ''web'', Index = 0\<rparr>"

definition watch_node1 :: Action where
  "watch_node1 = \<lparr>Type = watchConsulNode, Payload = PString ''node-1'', Index = 0\<rparr>"

definition q1 :: QueryOptions where
  "q1 = \<lparr>WaitIndex = 1, WaitTime = 0\<rparr>"

section \<open>Projections of the state\<close>

lemma emit_fields:
  "watches (emit es c) = watches c"
  "send (emit es c) = send c"
  "send_closed (emit es c) = send_closed c"
  "trace (emit es c) = trace c @ es"
  by (simp_all add: emit_def)

lemma watches_Add_fields:
  "watches (watches_Add k c) = insert k (watches c)"
  "send (watches_Add k c) = send c"
  "send_closed (watches_Add k c) = send_closed c"
  "trace (watches_Add k c) = trace c"
  by (simp_all add: watches_Add_def)

lemma watches_Remove_fields:
  "watches (watches_Remove k c) = watches c - {k}"
  "send (watches_Remove k c) = send c"
  "send_closed (watches_Remove k c) = send_closed c"
  "trace (watches_Remove k c) = trace c"
  by (simp_all add: watches_Remove_def)

lemma env_step_keeps: "send (env_step e c) = send c" "trace (env_step e c) = trace c"
  by (cases e; simp add: watches_Add_def watches_Remove_def)+

lemma env_run_keeps: "send (env_run env c) = send c \<and> trace (env_run env c) = trace c"
  by (induction env arbitrary: c) (simp_all add: env_step_keeps)

lemma chan_send_Some:
  "chan_send a c = Some c' \<Longrightarrow>
     send c' = send c @ [a] \<and> watches c' = watches c \<and> trace c' = trace c \<and> \<not> send_closed c'"
  by (auto simp: chan_send_def split: if_splits)

section \<open>Watching a key twice\<close>

text \<open>
  C2. A watch whose key is in the watch set already returns at once, whatever the schedule:
  the watch set and the actions sent are as before, the one effect is the warning, and no
  loop is entered (nothing of the schedule is met).
\<close>

theorem duplicate_watch_is_noop:
  assumes "k \<in> watches c" and "Payload a = PString k"
  shows "watchGenericBroadcast k ev changes initial c =
           (Returned, c\<lparr>trace := trace c @ [Log Warning ''Connection is already subscribed to %s'']\<rparr>)
       \<and> watchConsulService_go a evs c =
           (Returned, c\<lparr>trace := trace c @ [Log Warning ''Connection is already subscribed to service %s'']\<rparr>)
       \<and> watchConsulNode_go a evs c =
           (Returned, c\<lparr>trace := trace c @ [Log Warning ''Connection is already subscribed to node %s'']\<rparr>)"
  using assms
  by (simp add: watchGenericBroadcast_def watchConsulService_go_def watchConsulNode_go_def
      watches_Has_def emit_def)

theorem duplicate_watch_is_noop_witness:
  "watchGenericBroadcast ''web'' fetchedConsulServices [BChange [] None] PNil conn_web =
     (Returned, \<lparr>watches = {''web''}, send = [], send_closed = False,
                 trace = [Log Warning ''Connection is already subscribed to %s'']\<rparr>)
   \<and> watchConsulService_go watch_web [Poll [] (QueryOk PNil 7)] conn_web =
     (Returned, \<lparr>watches = {''web''}, send = [], send_closed = False,
                 trace = [Log Warning ''Connection is already subscribed to service %s'']\<rparr>)
   \<and> watchConsulNode_go watch_web [Poll [] (QueryOk PNil 7)] conn_web =
     (Returned, \<lparr>watches = {''web''}, send = [], send_closed = False,
                 trace = [Log Warning ''Connection is already subscribed to node %s'']\<rparr>)"
proof -
  have h1: "''web'' \<in> watches conn_web" by (simp add: conn_web_def)
  have h2: "Payload watch_web = PString ''web''" by (simp add: watch_web_def)
  show ?thesis
    using duplicate_watch_is_noop [OF h1 h2, where ev = fetchedConsulServices
        and changes = "[BChange [] None]" and initial = PNil and evs = "[Poll [] (QueryOk PNil 7)]"]
    by (simp add: conn_web_def)
qed

section \<open>A payload that is not a string\<close>

text \<open>
  C9. For an action of type watchConsulService, unwatchConsulService, watchConsulNode or
  unwatchConsulNode whose payload is not a string, the type assertion panics: in \<open>process\<close>
  itself for the two unwatch types, in the goroutine that \<open>process\<close> starts for the two
  watch types, before anything is logged for it or changed in the watch set.
\<close>

theorem non_string_payload_panics:
  assumes "payload_string (Payload a) = None"
  shows "(Type a = unwatchConsulService \<or> Type a = unwatchConsulNode \<longrightarrow>
            process r a c =
              (Panicked interface_conversion, [], emit [Log Debug ''Processing event %s (index %d)''] c))
       \<and> (Type a = watchConsulService \<longrightarrow>
            fst (snd (process r a c)) = [WatchConsulService a])
       \<and> (Type a = watchConsulNode \<longrightarrow>
            fst (snd (process r a c)) = [WatchConsulNode a])
       \<and> watchConsulService_go a evs c = (Panicked interface_conversion, c)
       \<and> watchConsulNode_go a evs c = (Panicked interface_conversion, c)"
  using assms
  by (auto simp: process_def watchConsulService_go_def watchConsulNode_go_def)

theorem non_string_payload_panics_witness:
  "process \<lparr>services = PNil, nodes = PNil\<rparr>
       \<lparr>Type = unwatchConsulNode, Payload = PNumber 3, Index = 0\<rparr> conn_web =
     (Panicked interface_conversion, [],
      \<lparr>watches = {''web''}, send = [], send_closed = False,
       trace = [Log Debug ''Processing event %s (index %d)'']\<rparr>)
   \<and> watchConsulService_go \<lparr>Type = unwatchConsulNode, Payload = PNumber 3, Index = 0\<rparr>
       [Destroy] conn_web = (Panicked interface_conversion, conn_web)"
proof -
  have h: "payload_string (Payload \<lparr>Type = unwatchConsulNode, Payload = PNumber 3, Index = 0\<rparr>) = None"
    by simp
  show ?thesis
    using non_string_payload_panics [OF h, where r = "\<lparr>services = PNil, nodes = PNil\<rparr>"
        and c = conn_web and evs = "[Destroy]"]
    by (simp add: conn_web_def emit_def)
qed

section \<open>The outbound loop writes in the order of arrival\<close>

text \<open>
  C8. \<open>writePump\<close> attempts to write every action received, in the order of arrival, whether
  or not earlier writes failed; the frames written are the actions whose write succeeded, in
  that order; each failure adds one line to the log and does not end the loop. When the
  channel is closed the loop attempts the close frame, returns, and the socket is closed;
  while the channel is open the loop goes on.
\<close>

theorem writePump_in_arrival_order:
  "fst (writePump items closing s) = (case closing of None \<Rightarrow> Running | Some ok \<Rightarrow> Returned)
   \<and> attempted (snd (writePump items closing s)) =
       attempted s @ map (\<lambda>i. JSONFrame (fst i)) items
         @ (case closing of None \<Rightarrow> [] | Some ok \<Rightarrow> [CloseFrame])
   \<and> written (snd (writePump items closing s)) =
       written s @ map (\<lambda>i. JSONFrame (fst i)) (filter snd items)
         @ (case closing of None \<Rightarrow> [] | Some ok \<Rightarrow> if ok then [CloseFrame] else [])
   \<and> length (socket_log (snd (writePump items closing s))) =
       length (socket_log s) + length (filter (\<lambda>i. \<not> snd i) items)
         + (case closing of None \<Rightarrow> 0 | Some ok \<Rightarrow> if ok then 0 else 1)
   \<and> socket_closed (snd (writePump items closing s)) =
       (case closing of None \<Rightarrow> socket_closed s | Some ok \<Rightarrow> True)"
proof (induction items arbitrary: s)
  case Nil
  show ?case by (cases closing) (simp_all add: socket_write_def)
next
  case (Cons i items)
  obtain action ok where i: "i = (action, ok)" by (cases i)
  show ?case
    unfolding i writePump.simps
    by (simp add: Cons.IH socket_write_def split: option.split)
qed

lemma writePump_example:
  "writePump [(watch_web, False), (watch_web\<lparr>Index := 4\<rparr>, True)] (Some True)
      \<lparr>written = [], attempted = [], socket_log = [], socket_closed = False\<rparr> =
     (Returned,
      \<lparr>written = [JSONFrame (watch_web\<lparr>Index := 4\<rparr>), CloseFrame],
       attempted = [JSONFrame watch_web, JSONFrame (watch_web\<lparr>Index := 4\<rparr>), CloseFrame],
       socket_log = [Log Error ''Could not write action to websocket: %s''],
       socket_closed = True\<rparr>)"
  by (simp add: socket_write_def)

section \<open>A send on the closed channel\<close>

lemma broadcast_deferred_recovers: "fst (broadcast_deferred k r) \<noteq> Panicked msg"
  by (cases r; cases "fst r") auto

lemma watchGenericBroadcast_recovers:
  "fst (watchGenericBroadcast k ev changes initial c) \<noteq> Panicked msg"
  by (simp add: watchGenericBroadcast_def broadcast_deferred_recovers)

text \<open>
  C4. The deferred function of \<open>watchGenericBroadcast\<close> recovers from the panic of a send on
  the closed channel. The deferred functions of \<open>watchConsulService\<close> and \<open>watchConsulNode\<close> do
  not: when the channel is closed while the backend is queried and the answer has a new
  index, the send panics and the panic leaves the function.
\<close>

theorem entity_send_on_closed_channel_panics:
  "watchConsulService_go watch_web [Poll [EnvCloseSend] (QueryOk PNil 2)] conn0 =
     (Panicked closed_channel,
      \<lparr>watches = {}, send = [], send_closed = True,
       trace = [Log Info ''Started watching service with id: %s'', HealthService ''web'' q1,
                Log Info ''Stopped watching service with id: %s'']\<rparr>)
   \<and> watchConsulNode_go watch_node1 [Poll [EnvCloseSend] (QueryOk PNil 2)] conn0 =
     (Panicked closed_channel,
      \<lparr>watches = {}, send = [], send_closed = True,
       trace = [Log Info ''Started watching node with id: %s'', HealthNode ''node-1'' q1,
                Log Info ''Stopped watching node with id: %s'']\<rparr>)
   \<and> watchGenericBroadcast ''services'' fetchedConsulServices
        [BChange [EnvCloseSend] (Some \<lparr>Type = fetchedConsulServices, Payload = PNil, Index = 2\<rparr>)]
        PNil conn0 =
     (Returned,
      \<lparr>watches = {},
       send = [\<lparr>Type = fetchedConsulServices, Payload = PNil, Index = 0\<rparr>], send_closed = True,
       trace = [Log Debug ''Sending our current %s list'', Log Debug ''Started watching %s'',
                Log Debug ''got new data for %s (WaitIndex: %d)'',
                Log Debug ''Publishing change %s %s'', Log Info ''Stopped watching %s'',
                Log Warning ''Recover from panic: %s'']\<rparr>)"
  by (simp add: watchConsulService_go_def watchConsulNode_go_def watchGenericBroadcast_def
      watch_web_def watch_node1_def conn0_def q1_def watches_Has_def watches_Add_def
      watches_Remove_def emit_def chan_send_def)

section \<open>The first action of a broadcast watch\<close>

lemma broadcast_loop_sends:
  "\<exists>forwarded. send (snd (broadcast_loop k ev changes c)) = send c @ forwarded
      \<and> list_all (\<lambda>a. Type a = ev) forwarded"
proof (induction k ev changes c rule: broadcast_loop.induct)
  case (1 watchKey actionEvent c)
  show ?case by simp
next
  case (2 watchKey actionEvent evs c)
  show ?case by simp
next
  case (3 watchKey actionEvent env v evs c)
  show ?case
  proof (cases v)
    case None
    then show ?thesis by (simp add: env_run_keeps)
  next
    case (Some channelAction)
    let ?c2 = "emit [Log Debug ''got new data for %s (WaitIndex: %d)''] (env_run env c)"
    show ?thesis
    proof (cases "watches_Has watchKey ?c2")
      case False
      with Some show ?thesis by (simp add: env_run_keeps emit_fields)
    next
      case has: True
      show ?thesis
      proof (cases "Type channelAction = actionEvent")
        case False
        from "3.IH"(1) [OF refl Some refl _ False] has
        obtain fwd where
          "send (snd (broadcast_loop watchKey actionEvent evs
              (emit [Log Debug ''Type mismatch: %s <> %s''] ?c2))) =
           send (emit [Log Debug ''Type mismatch: %s <> %s''] ?c2) @ fwd"
          "list_all (\<lambda>a. Type a = actionEvent) fwd"
          by auto
        with Some has False show ?thesis by (auto simp: env_run_keeps emit_fields)
      next
        case same: True
        let ?c3 = "emit [Log Debug ''Publishing change %s %s''] ?c2"
        show ?thesis
        proof (cases "chan_send channelAction ?c3")
          case None
          with Some has same show ?thesis by (simp add: env_run_keeps emit_fields)
        next
          case sent: (Some c4)
          from "3.IH"(2) [OF refl Some refl _ _ sent] has same
          obtain fwd where fwd:
            "send (snd (broadcast_loop watchKey actionEvent evs c4)) = send c4 @ fwd"
            "list_all (\<lambda>a. Type a = actionEvent) fwd"
            by auto
          from chan_send_Some [OF sent]
          have "send c4 = send c @ [channelAction]" by (simp add: env_run_keeps emit_fields)
          with fwd Some has same sent
          have "send (snd (broadcast_loop watchKey actionEvent (BChange env v # evs) c)) =
                  send c @ (channelAction # fwd)
                \<and> list_all (\<lambda>a. Type a = actionEvent) (channelAction # fwd)"
            by simp
          then show ?thesis by blast
        qed
      qed
    qed
  qed
qed

lemma broadcast_deferred_send: "send (snd (broadcast_deferred k r)) = send (snd r)"
  by (cases r; cases "fst r") (auto simp: emit_fields watches_Remove_fields)

text \<open>
  C6. A broadcast watch whose key is not in the watch set sends, before it enters its loop,
  one action with the expected type, the initial payload and index 0: when the loop waits for
  the first change, that action is the only one sent, and after any schedule it is the first
  one sent, followed by forwarded actions of the expected type only. On a channel that is
  closed already the send panics, the loop is never entered, and nothing is sent.
\<close>

theorem broadcast_watch_sends_snapshot_first:
  assumes "k \<notin> watches c"
  shows "if send_closed c
         then watchGenericBroadcast k ev changes initial c =
                (Returned,
                 c\<lparr>trace := trace c @ [Log Debug ''Sending our current %s list'',
                      Log Info ''Stopped watching %s'', Log Warning ''Recover from panic: %s'']\<rparr>)
         else watchGenericBroadcast k ev [] initial c =
                (Running,
                 c\<lparr>watches := insert k (watches c),
                   send := send c @ [\<lparr>Type = ev, Payload = initial, Index = 0\<rparr>],
                   trace := trace c @ [Log Debug ''Sending our current %s list'',
                      Log Debug ''Started watching %s'']\<rparr>)
            \<and> (\<exists>forwarded.
                  send (snd (watchGenericBroadcast k ev changes initial c)) =
                    send c @ \<lparr>Type = ev, Payload = initial, Index = 0\<rparr> # forwarded
                  \<and> list_all (\<lambda>a. Type a = ev) forwarded)"
proof (cases "send_closed c")
  case True
  with assms show ?thesis
    by (simp add: watchGenericBroadcast_def watches_Has_def chan_send_def emit_def
        watches_Add_def watches_Remove_def)
next
  case False
  let ?snap = "\<lparr>Type = ev, Payload = initial, Index = 0\<rparr>"
  let ?c2 = "(emit [Log Debug ''Sending our current %s list''] (watches_Add k c))
               \<lparr>send := send c @ [?snap]\<rparr>"
  let ?c3 = "emit [Log Debug ''Started watching %s''] ?c2"
  from assms False have run:
    "watchGenericBroadcast k ev xs initial c = broadcast_deferred k (broadcast_loop k ev xs ?c3)" for xs
    by (simp add: watchGenericBroadcast_def watches_Has_def chan_send_def emit_def watches_Add_def)
  have first: "watchGenericBroadcast k ev [] initial c =
      (Running,
       c\<lparr>watches := insert k (watches c), send := send c @ [?snap],
         trace := trace c @ [Log Debug ''Sending our current %s list'',
                    Log Debug ''Started watching %s'']\<rparr>)"
    unfolding run by (simp add: emit_def watches_Add_def)
  obtain fwd where fwd: "send (snd (broadcast_loop k ev changes ?c3)) = send ?c3 @ fwd"
    "list_all (\<lambda>a. Type a = ev) fwd"
    using broadcast_loop_sends [of k ev changes ?c3] by blast
  have "send (snd (watchGenericBroadcast k ev changes initial c)) = send c @ ?snap # fwd"
    unfolding run broadcast_deferred_send fwd(1) by (simp add: emit_fields)
  with fwd(2) first False show ?thesis by auto
qed

theorem broadcast_watch_sends_snapshot_first_witness:
  "watchGenericBroadcast ''services'' fetchedConsulServices [] (PObject [(''web'', ''passing'')]) conn0 =
     (Running,
      \<lparr>watches = {''services''},
       send = [\<lparr>Type = fetchedConsulServices, Payload = PObject [(''web'', ''passing'')], Index = 0\<rparr>],
       send_closed = False,
       trace = [Log Debug ''Sending our current %s list'', Log Debug ''Started watching %s'']\<rparr>)"
proof -
  have h: "''services'' \<notin> watches conn0" by (simp add: conn0_def)
  show ?thesis
    using broadcast_watch_sends_snapshot_first [OF h, where ev = fetchedConsulServices
        and changes = "[]" and initial = "PObject [(''web'', ''passing'')]"]
    by (simp add: conn0_def)
qed

section \<open>Query errors\<close>

lemma env_run_append: "env_run (xs @ ys) c = env_run ys (env_run xs c)"
  by (induction xs arbitrary: c) simp_all

lemma env_step_emit: "env_step e (emit es c) = emit es (env_step e c)"
  by (cases e) (simp_all add: emit_def watches_Add_def watches_Remove_def)

lemma env_run_emit: "env_run env (emit es c) = emit es (env_run env c)"
  by (induction env arbitrary: c) (simp_all add: env_step_emit)

lemma emit_emit: "emit ys (emit xs c) = emit (xs @ ys) c"
  by (simp add: emit_def)

lemma emit_Nil: "emit [] c = c"
  by (simp add: emit_def)

lemma service_loop_errors:
  "list_all query_fails evs \<Longrightarrow>
   service_loop k evs q c =
     (Running, q,
      emit (concat (map (\<lambda>e. [HealthService k q,
                Log Error ''connection: unable to fetch consul service info: %s'', Sleep 10]) evs))
        (env_run (concat (map poll_env evs)) c))"
proof (induction evs arbitrary: c)
  case Nil
  show ?case by (simp add: emit_Nil)
next
  case (Cons e evs)
  from Cons.prems obtain env err where e: "e = Poll env (QueryError err)"
    by (cases e rule: query_fails.cases) auto
  from Cons.prems have rest: "list_all query_fails evs" by simp
  show ?case
    unfolding e
    by (simp add: Cons.IH [OF rest] env_run_emit env_run_append emit_emit)
qed

lemma node_loop_errors:
  "list_all query_fails evs \<Longrightarrow>
   node_loop k evs q c =
     (Running, q,
      emit (concat (map (\<lambda>e. [HealthNode k q,
                Log Error ''connection: unable to fetch consul node info: %s'', Sleep 10]) evs))
        (env_run (concat (map poll_env evs)) c))"
proof (induction evs arbitrary: c)
  case Nil
  show ?case by (simp add: emit_Nil)
next
  case (Cons e evs)
  from Cons.prems obtain env err where e: "e = Poll env (QueryError err)"
    by (cases e rule: query_fails.cases) auto
  from Cons.prems have rest: "list_all query_fails evs" by simp
  show ?case
    unfolding e
    by (simp add: Cons.IH [OF rest] env_run_emit env_run_append emit_emit)
qed

text \<open>
  C7. Over a schedule in which every query fails, however long, a per-entity loop is still
  running, with the query options (the local index) it started with; each iteration has
  queried, logged the error and slept 10 seconds; nothing has been sent, and the watch set is
  the one the other goroutines made of it: the loop itself has not touched it.
\<close>

theorem query_errors_never_end_the_loop:
  assumes "list_all query_fails evs"
  shows "service_loop k evs q c =
           (Running, q,
            emit (concat (map (\<lambda>e. [HealthService k q,
                      Log Error ''connection: unable to fetch consul service info: %s'', Sleep 10]) evs))
              (env_run (concat (map poll_env evs)) c))
       \<and> node_loop k evs q c =
           (Running, q,
            emit (concat (map (\<lambda>e. [HealthNode k q,
                      Log Error ''connection: unable to fetch consul node info: %s'', Sleep 10]) evs))
              (env_run (concat (map poll_env evs)) c))
       \<and> send (snd (snd (service_loop k evs q c))) = send c
       \<and> send (snd (snd (node_loop k evs q c))) = send c
       \<and> watches (snd (snd (service_loop k evs q c))) = watches (env_run (concat (map poll_env evs)) c)
       \<and> watches (snd (snd (node_loop k evs q c))) = watches (env_run (concat (map poll_env evs)) c)"
  by (simp add: service_loop_errors [OF assms] node_loop_errors [OF assms] emit_fields env_run_keeps)

theorem query_errors_never_end_the_loop_witness:
  "service_loop ''web'' [Poll [] (QueryError ''timeout''), Poll [] (QueryError ''refused'')] q1 conn_web =
     (Running, q1,
      \<lparr>watches = {''web''}, send = [], send_closed = False,
       trace = [HealthService ''web'' q1,
                Log Error ''connection: unable to fetch consul service info: %s'', Sleep 10,
                HealthService ''web'' q1,
                Log Error ''connection: unable to fetch consul service info: %s'', Sleep 10]\<rparr>)
   \<and> node_loop ''web'' [Poll [] (QueryError ''timeout''), Poll [] (QueryError ''refused'')] q1 conn_web =
     (Running, q1,
      \<lparr>watches = {''web''}, send = [], send_closed = False,
       trace = [HealthNode ''web'' q1,
                Log Error ''connection: unable to fetch consul node info: %s'', Sleep 10,
                HealthNode ''web'' q1,
                Log Error ''connection: unable to fetch consul node info: %s'', Sleep 10]\<rparr>)"
proof -
  have h: "list_all query_fails [Poll [] (QueryError ''timeout''), Poll [] (QueryError ''refused'')]"
    by simp
  show ?thesis
    using query_errors_never_end_the_loop [OF h, where k = "''web''" and q = q1 and c = conn_web]
    by (simp add: conn_web_def emit_def)
qed

section \<open>A service whose index stays at 1 or below\<close>

lemma service_loop_index_at_most:
  "list_all (index_at_most (WaitIndex q)) evs \<Longrightarrow>
   send (snd (snd (service_loop k evs q c))) = send c"
proof (induction evs arbitrary: c)
  case Nil
  show ?case by simp
next
  case (Cons e evs)
  from Cons.prems have rest: "list_all (index_at_most (WaitIndex q)) evs" by simp
  show ?case
  proof (cases e)
    case Destroy
    then show ?thesis by simp
  next
    case (Poll env r)
    show ?thesis
    proof (cases r)
      case (QueryError err)
      with Poll show ?thesis
        by (simp add: Cons.IH [OF rest] emit_fields env_run_keeps)
    next
      case (QueryOk v idx)
      with Poll Cons.prems have "\<not> WaitIndex q < idx" by (simp add: not_less)
      with Poll QueryOk show ?thesis
        by (simp add: Let_def Cons.IH [OF rest] emit_fields env_run_keeps)
    qed
  qed
qed

lemma service_loop_quiet:
  "list_all (quiet_answer_at_most (WaitIndex q)) evs \<Longrightarrow> k \<in> watches c \<Longrightarrow>
   service_loop k evs q c = (Running, q, emit (map (\<lambda>e. HealthService k q) evs) c)"
proof (induction evs arbitrary: c)
  case Nil
  show ?case by (simp add: emit_Nil)
next
  case (Cons e evs)
  from Cons.prems(1) obtain v idx where e: "e = Poll [] (QueryOk v idx)" and le: "idx \<le> WaitIndex q"
    by (cases "(WaitIndex q, e)" rule: quiet_answer_at_most.cases) auto
  from Cons.prems(1) have rest: "list_all (quiet_answer_at_most (WaitIndex q)) evs" by simp
  from Cons.prems(2) have has: "k \<in> watches (emit [HealthService k q] c)"
    by (simp add: emit_fields)
  from le have "\<not> WaitIndex q < idx" by (simp add: not_less)
  with Cons.prems(2) show ?case
    unfolding e
    by (simp add: Cons.IH [OF rest has] watches_Has_def emit_fields emit_emit)
qed

text \<open>
  C10. \<open>watchConsulService\<close> starts its loop with \<open>WaitIndex\<close> 1 and sends only for an index
  above the local one. So for a service whose answers never have an index above 1 nothing is
  ever sent, whatever else happens; and when such answers are all that happens, the loop
  stays in its loop and queries once per iteration, each time with \<open>WaitIndex\<close> 1 and with
  no sleep in between.
\<close>

theorem service_index_at_most_1_never_sent:
  assumes "payload_string (Payload a) = Some k" and "k \<notin> watches c"
  shows "(list_all (index_at_most 1) evs \<longrightarrow>
            send (snd (watchConsulService_go a evs c)) = send c)
       \<and> (list_all (quiet_answer_at_most 1) evs \<longrightarrow>
            watchConsulService_go a evs c =
              (Running,
               c\<lparr>watches := insert k (watches c),
                 trace := trace c @ Log Info ''Started watching service with id: %s''
                            # map (\<lambda>e. HealthService k \<lparr>WaitIndex = 1, WaitTime = 0\<rparr>) evs\<rparr>))"
proof -
  let ?q = "\<lparr>WaitIndex = 1, WaitTime = 0\<rparr>"
  let ?c1 = "emit [Log Info ''Started watching service with id: %s''] (watches_Add k c)"
  from assms have run:
    "watchConsulService_go a evs c =
       entity_deferred k ''Stopped watching service with id: %s'' (service_loop k evs ?q ?c1)"
    by (simp add: watchConsulService_go_def watches_Has_def)
  have keep: "send (snd (entity_deferred k msg r)) = send (snd (snd r))" for msg r
    by (cases r; cases "fst r") (auto simp: emit_fields watches_Remove_fields)
  have one: "send (snd (watchConsulService_go a evs c)) = send c"
    if "list_all (index_at_most 1) evs"
    unfolding run keep
    using service_loop_index_at_most [of ?q evs k ?c1] that
    by (simp add: emit_fields watches_Add_fields)
  have two: "watchConsulService_go a evs c =
      (Running,
       c\<lparr>watches := insert k (watches c),
         trace := trace c @ Log Info ''Started watching service with id: %s''
                    # map (\<lambda>e. HealthService k ?q) evs\<rparr>)"
    if "list_all (quiet_answer_at_most 1) evs"
    unfolding run
    using service_loop_quiet [of ?q evs k ?c1] that
    by (simp add: emit_def watches_Add_def)
  from one two show ?thesis by blast
qed

theorem service_index_at_most_1_never_sent_witness:
  "watchConsulService_go watch_web
      [Poll [] (QueryOk (PObject [(''web'', ''passing'')]) 1), Poll [] (QueryOk PNil 0)] conn0 =
     (Running,
      \<lparr>watches = {''web''}, send = [], send_closed = False,
       trace = [Log Info ''Started watching service with id: %s'',
                HealthService ''web'' q1, HealthService ''web'' q1]\<rparr>)
   \<and> send (snd (watchConsulService_go watch_web
      [Poll [] (QueryOk (PObject [(''web'', ''passing'')]) 1), Poll [] (QueryOk PNil 0)] conn0)) = []"
proof -
  have h1: "payload_string (Payload watch_web) = Some ''web''" by (simp add: watch_web_def)
  have h2: "''web'' \<notin> watches conn0" by (simp add: conn0_def)
  have h3: "list_all (index_at_most 1)
      [Poll [] (QueryOk (PObject [(''web'', ''passing'')]) 1), Poll [] (QueryOk PNil 0)]" by simp
  have h4: "list_all (quiet_answer_at_most 1)
      [Poll [] (QueryOk (PObject [(''web'', ''passing'')]) 1), Poll [] (QueryOk PNil 0)]" by simp
  show ?thesis
    using service_index_at_most_1_never_sent [OF h1 h2, where evs =
        "[Poll [] (QueryOk (PObject [(''web'', ''passing'')]) 1), Poll [] (QueryOk PNil 0)]"] h3 h4
    by (simp add: conn0_def q1_def)
qed

section \<open>The indices sent by a per-entity loop\<close>

lemma entity_deferred_send: "send (snd (entity_deferred k msg r)) = send (snd (snd r))"
  by (cases r; cases "fst r") (auto simp: emit_fields watches_Remove_fields)

lemma service_loop_increasing:
  "\<exists>new. send (snd (snd (service_loop k evs q c))) = send c @ new
      \<and> sorted_wrt (<) (WaitIndex q # map Index new)"
proof (induction evs arbitrary: q c)
  case Nil
  show ?case by simp
next
  case (Cons e evs)
  show ?case
  proof (cases e)
    case Destroy
    then show ?thesis by simp
  next
    case (Poll env r)
    let ?c1 = "env_run env (emit [HealthService k q] c)"
    have c1: "send ?c1 = send c" by (simp add: env_run_keeps emit_fields)
    show ?thesis
    proof (cases r)
      case (QueryError err)
      from Cons.IH [of q "emit [Log Error ''connection: unable to fetch consul service info: %s'', Sleep 10] ?c1"]
      show ?thesis unfolding Poll QueryError by (simp add: c1 emit_fields)
    next
      case (QueryOk v idx)
      show ?thesis
      proof (cases "watches_Has k ?c1 \<and> WaitIndex q < idx")
        case False
        then consider "\<not> watches_Has k ?c1" | "watches_Has k ?c1" "\<not> WaitIndex q < idx" by blast
        then show ?thesis
        proof cases
          case 1
          then show ?thesis unfolding Poll QueryOk by (simp add: Let_def c1)
        next
          case 2
          with Cons.IH [of q ?c1] show ?thesis unfolding Poll QueryOk by (simp add: Let_def c1)
        qed
      next
        case True
        let ?a = "\<lparr>Type = fetchedConsulService, Payload = v, Index = idx\<rparr>"
        show ?thesis
        proof (cases "chan_send ?a ?c1")
          case None
          with True show ?thesis unfolding Poll QueryOk by (simp add: Let_def c1)
        next
          case (Some c2)
          from chan_send_Some [OF Some] have c2: "send c2 = send c @ [?a]" by (simp add: c1)
          from Cons.IH [of "\<lparr>WaitIndex = idx, WaitTime = 10\<rparr>" "emit [Sleep 5] c2"]
          obtain new where new:
            "send (snd (snd (service_loop k evs \<lparr>WaitIndex = idx, WaitTime = 10\<rparr> (emit [Sleep 5] c2)))) =
               send c @ ?a # new"
            "sorted_wrt (<) (idx # map Index new)"
            by (auto simp: emit_fields c2)
          from True new(2) have "sorted_wrt (<) (WaitIndex q # map Index (?a # new))"
            by auto
          with new(1) True Some show ?thesis
            unfolding Poll QueryOk by (simp add: Let_def)
        qed
      qed
    qed
  qed
qed

lemma strictly_above:
  fixes m :: "64 word"
  assumes "sorted_wrt (<) xs" and "distinct_adj (m # xs)" and "\<forall>x\<in>set xs. m \<le> x"
  shows "sorted_wrt (<) (m # xs)"
proof (cases xs)
  case Nil
  then show ?thesis by simp
next
  case (Cons y ys)
  with assms have "m < y" by auto
  with assms(1) Cons show ?thesis by auto
qed

lemma node_loop_changes:
  "\<exists>new. send (snd (snd (node_loop k evs q c))) = send c @ new
      \<and> distinct_adj (WaitIndex q # map Index new)
      \<and> set (map Index new) \<subseteq> set (answer_indices evs)
      \<and> (sorted (answer_indices evs) \<longrightarrow> sorted_wrt (<) (map Index new))"
proof (induction evs arbitrary: q c)
  case Nil
  show ?case by simp
next
  case (Cons e evs)
  show ?case
  proof (cases e)
    case Destroy
    then show ?thesis by simp
  next
    case (Poll env r)
    let ?c1 = "env_run env (emit [HealthNode k q] c)"
    have c1: "send ?c1 = send c" by (simp add: env_run_keeps emit_fields)
    show ?thesis
    proof (cases r)
      case (QueryError err)
      from Cons.IH [of q "emit [Log Error ''connection: unable to fetch consul node info: %s'', Sleep 10] ?c1"]
      show ?thesis unfolding Poll QueryError by (simp add: c1 emit_fields)
    next
      case (QueryOk v idx)
      show ?thesis
      proof (cases "watches_Has k ?c1")
        case False
        then show ?thesis unfolding Poll QueryOk by (simp add: Let_def c1)
      next
        case has: True
        show ?thesis
        proof (cases "idx = WaitIndex q")
          case True
          from Cons.IH [of q "emit [Sleep 5] ?c1"]
          obtain new where new:
            "send (snd (snd (node_loop k evs q (emit [Sleep 5] ?c1)))) = send c @ new"
            "distinct_adj (WaitIndex q # map Index new)"
            "set (map Index new) \<subseteq> set (answer_indices evs)"
            "sorted (answer_indices evs) \<longrightarrow> sorted_wrt (<) (map Index new)"
            by (auto simp: emit_fields c1)
          from new(3) have sub: "set (map Index new) \<subseteq> set (answer_indices (e # evs))"
            unfolding Poll QueryOk by auto
          from new(4) have mono: "sorted (answer_indices (e # evs)) \<longrightarrow> sorted_wrt (<) (map Index new)"
            unfolding Poll QueryOk by simp
          from new(1) has True
          have "send (snd (snd (node_loop k (e # evs) q c))) = send c @ new"
            unfolding Poll QueryOk by (simp add: Let_def)
          with new(2) sub mono show ?thesis by blast
        next
          case False
          let ?a = "\<lparr>Type = fetchedConsulNode, Payload = v, Index = idx\<rparr>"
          show ?thesis
          proof (cases "chan_send ?a ?c1")
            case None
            with has False show ?thesis unfolding Poll QueryOk by (simp add: Let_def c1)
          next
            case (Some c2)
            from chan_send_Some [OF Some] have c2: "send c2 = send c @ [?a]" by (simp add: c1)
            from Cons.IH [of "\<lparr>WaitIndex = idx, WaitTime = 10\<rparr>" "emit [Sleep 5] c2"]
            obtain new where new:
              "send (snd (snd (node_loop k evs \<lparr>WaitIndex = idx, WaitTime = 10\<rparr> (emit [Sleep 5] c2)))) =
                 send c @ ?a # new"
              "distinct_adj (idx # map Index new)"
              "set (map Index new) \<subseteq> set (answer_indices evs)"
              "sorted (answer_indices evs) \<longrightarrow> sorted_wrt (<) (map Index new)"
              by (auto simp: emit_fields c2)
            from False new(2) have adj: "distinct_adj (WaitIndex q # map Index (?a # new))"
              by auto
            from new(3) have sub: "set (map Index (?a # new)) \<subseteq> set (answer_indices (e # evs))"
              unfolding Poll QueryOk by auto
            have mono: "sorted_wrt (<) (map Index (?a # new))" if "sorted (answer_indices (e # evs))"
            proof -
              from that have s: "sorted (answer_indices evs)" and le: "\<forall>x\<in>set (answer_indices evs). idx \<le> x"
                unfolding Poll QueryOk by simp_all
              from le new(3) have "\<forall>x\<in>set (map Index new). idx \<le> x" by blast
              with s new(4) new(2) have "sorted_wrt (<) (idx # map Index new)"
                by (intro strictly_above) auto
              then show ?thesis by simp
            qed
            from new(1) has False Some
            have "send (snd (snd (node_loop k (e # evs) q c))) = send c @ ?a # new"
              unfolding Poll QueryOk by (simp add: Let_def)
            with adj sub mono show ?thesis by blast
          qed
        qed
      qed
    qed
  qed
qed

text \<open>
  C1, as the code has it. The indices that \<open>watchConsulService\<close> sends are strictly increasing
  and above 1, for every schedule. Those that \<open>watchConsulNode\<close> sends differ each from the one
  sent before it (the first from 1), and are strictly increasing when the indices of the
  answers never decrease; an answer with a lower index than the last one sent is sent.
\<close>

theorem sent_indices_increase:
  "(\<exists>new. send (snd (watchConsulService_go a evs c)) = send c @ new
        \<and> sorted_wrt (<) (1 # map Index new))
   \<and> (\<exists>new. send (snd (watchConsulNode_go a evs c)) = send c @ new
        \<and> distinct_adj (1 # map Index new)
        \<and> (sorted (answer_indices evs) \<longrightarrow> sorted_wrt (<) (map Index new)))"
proof -
  have s_none: "\<exists>new. send c = send c @ new \<and> sorted_wrt (<) (1 # map Index new)"
    by (rule exI [of _ "[]"]) simp
  have n_none: "\<exists>new. send c = send c @ new \<and> distinct_adj (1 # map Index new)
      \<and> (sorted (answer_indices evs) \<longrightarrow> sorted_wrt (<) (map Index new))"
    by (rule exI [of _ "[]"]) simp
  have service: "\<exists>new. send (snd (watchConsulService_go a evs c)) = send c @ new
        \<and> sorted_wrt (<) (1 # map Index new)"
  proof (cases "payload_string (Payload a)")
    case None
    with s_none show ?thesis by (simp add: watchConsulService_go_def)
  next
    case (Some k)
    show ?thesis
    proof (cases "watches_Has k c")
      case True
      with Some s_none show ?thesis by (simp add: watchConsulService_go_def emit_fields)
    next
      case False
      let ?c1 = "emit [Log Info ''Started watching service with id: %s''] (watches_Add k c)"
      from service_loop_increasing [of k evs "\<lparr>WaitIndex = 1, WaitTime = 0\<rparr>" ?c1]
      have "\<exists>new. send (snd (snd (service_loop k evs \<lparr>WaitIndex = 1, WaitTime = 0\<rparr> ?c1))) = send c @ new
          \<and> sorted_wrt (<) (1 # map Index new)"
        by (simp add: emit_fields watches_Add_fields)
      with Some False show ?thesis
        by (simp add: watchConsulService_go_def entity_deferred_send)
    qed
  qed
  have node: "\<exists>new. send (snd (watchConsulNode_go a evs c)) = send c @ new
        \<and> distinct_adj (1 # map Index new)
        \<and> (sorted (answer_indices evs) \<longrightarrow> sorted_wrt (<) (map Index new))"
  proof (cases "payload_string (Payload a)")
    case None
    with n_none show ?thesis by (simp add: watchConsulNode_go_def)
  next
    case (Some k)
    show ?thesis
    proof (cases "watches_Has k c")
      case True
      with Some n_none show ?thesis by (simp add: watchConsulNode_go_def emit_fields)
    next
      case False
      let ?c1 = "emit [Log Info ''Started watching node with id: %s''] (watches_Add k c)"
      from node_loop_changes [of k evs "\<lparr>WaitIndex = 1, WaitTime = 0\<rparr>" ?c1]
      have "\<exists>new. send (snd (snd (node_loop k evs \<lparr>WaitIndex = 1, WaitTime = 0\<rparr> ?c1))) = send c @ new
          \<and> distinct_adj (1 # map Index new)
          \<and> (sorted (answer_indices evs) \<longrightarrow> sorted_wrt (<) (map Index new))"
        by (simp add: emit_fields watches_Add_fields) blast
      with Some False show ?thesis
        by (simp add: watchConsulNode_go_def entity_deferred_send)
    qed
  qed
  from service node show ?thesis by blast
qed

theorem sent_indices_increase_witness:
  "sorted (answer_indices [Poll [] (QueryOk PNil 2), Poll [] (QueryOk PNil 2), Poll [] (QueryOk PNil 6)])
   \<and> sorted_wrt (<) (map Index (send (snd (watchConsulNode_go watch_node1
        [Poll [] (QueryOk PNil 2), Poll [] (QueryOk PNil 2), Poll [] (QueryOk PNil 6)] conn0))))
   \<and> map Index (send (snd (watchConsulNode_go watch_node1
        [Poll [] (QueryOk PNil 2), Poll [] (QueryOk PNil 2), Poll [] (QueryOk PNil 6)] conn0))) = [2, 6]"
proof -
  let ?evs = "[Poll [] (QueryOk PNil 2), Poll [] (QueryOk PNil 2), Poll [] (QueryOk PNil 6)]"
  have h: "sorted (answer_indices ?evs)" by simp
  from sent_indices_increase [of watch_node1 ?evs conn0]
  obtain new where new: "send (snd (watchConsulNode_go watch_node1 ?evs conn0)) = send conn0 @ new"
    "sorted (answer_indices ?evs) \<longrightarrow> sorted_wrt (<) (map Index new)"
    by blast
  from new h have inc: "sorted_wrt (<) (map Index (send (snd (watchConsulNode_go watch_node1 ?evs conn0))))"
    by (simp add: conn0_def)
  have val: "map Index (send (snd (watchConsulNode_go watch_node1 ?evs conn0))) = [2, 6]"
    by (simp add: watchConsulNode_go_def watch_node1_def conn0_def watches_Has_def
        watches_Add_def watches_Remove_def emit_def chan_send_def)
  from h inc val show ?thesis by blast
qed

text \<open>
  The node loop compares with \<open>=\<close>: after index 5, an answer with index 3 is sent, so the
  indices sent for a node are not always increasing.
\<close>

theorem node_sends_lower_index:
  "map Index (send (snd (watchConsulNode_go watch_node1
      [Poll [] (QueryOk PNil 5), Poll [] (QueryOk PNil 3)] conn0))) = [5, 3]
   \<and> \<not> sorted_wrt (<) (map Index (send (snd (watchConsulNode_go watch_node1
      [Poll [] (QueryOk PNil 5), Poll [] (QueryOk PNil 3)] conn0))))"
  by (simp add: watchConsulNode_go_def watch_node1_def conn0_def watches_Has_def
      watches_Add_def watches_Remove_def emit_def chan_send_def)

section \<open>The pause between two queries\<close>

lemma spaced_snoc:
  "spaced (t @ [x]) = (spaced t \<and> (t = [] \<or> \<not> (is_query (last t) \<and> is_query x)))"
  by (auto simp: spaced_def successively_append_iff)

lemma node_loop_spaced:
  "spaced (trace c) \<Longrightarrow> trace c = [] \<or> \<not> is_query (last (trace c)) \<Longrightarrow>
   spaced (trace (snd (snd (node_loop k evs q c))))"
proof (induction evs arbitrary: q c)
  case Nil
  then show ?case by simp
next
  case (Cons e evs)
  show ?case
  proof (cases e)
    case Destroy
    with Cons.prems show ?thesis by simp
  next
    case (Poll env r)
    let ?c1 = "env_run env (emit [HealthNode k q] c)"
    have t1: "trace ?c1 = trace c @ [HealthNode k q]" by (simp add: env_run_keeps emit_fields)
    from Cons.prems have s1: "spaced (trace ?c1)" unfolding t1 by (auto simp: spaced_snoc)
    have next_ok: "spaced (trace (snd (snd (node_loop k evs q' (emit (es @ [Sleep n]) d)))))"
      if "trace d = trace ?c1" and "list_all (\<lambda>x. \<not> is_query x) es" for q' es n d
    proof (rule Cons.IH)
      from s1 that(2) show "spaced (trace (emit (es @ [Sleep n]) d))"
        unfolding emit_fields that(1)
        by (induction es rule: rev_induct)
          (auto simp: spaced_snoc simp flip: append_assoc)
      show "trace (emit (es @ [Sleep n]) d) = [] \<or> \<not> is_query (last (trace (emit (es @ [Sleep n]) d)))"
        by (simp add: emit_fields flip: append_assoc)
    qed
    show ?thesis
    proof (cases r)
      case (QueryError err)
      from next_ok [of ?c1 "[Log Error ''connection: unable to fetch consul node info: %s'']" q 10]
      show ?thesis unfolding Poll QueryError by simp
    next
      case (QueryOk v idx)
      show ?thesis
      proof (cases "watches_Has k ?c1")
        case False
        with s1 show ?thesis unfolding Poll QueryOk by (simp add: Let_def)
      next
        case has: True
        show ?thesis
        proof (cases "idx = WaitIndex q")
          case True
          from next_ok [of ?c1 "[]" q 5] has True
          show ?thesis unfolding Poll QueryOk by (simp add: Let_def)
        next
          case False
          let ?a = "\<lparr>Type = fetchedConsulNode, Payload = v, Index = idx\<rparr>"
          show ?thesis
          proof (cases "chan_send ?a ?c1")
            case None
            with s1 has False show ?thesis unfolding Poll QueryOk by (simp add: Let_def)
          next
            case (Some c2)
            from chan_send_Some [OF Some] have "trace c2 = trace ?c1" by simp
            from next_ok [OF this, of "[]" "\<lparr>WaitIndex = idx, WaitTime = 10\<rparr>" 5] has False Some
            show ?thesis unfolding Poll QueryOk by (simp add: Let_def)
          qed
        qed
      qed
    qed
  qed
qed

lemma entity_deferred_spaced:
  "spaced (trace (snd (snd r))) \<Longrightarrow> spaced (trace (snd (entity_deferred k msg r)))"
  by (cases r; cases "fst r") (auto simp: emit_fields watches_Remove_fields spaced_snoc)

lemma watchConsulNode_spaced:
  assumes "spaced (trace c)"
  shows "spaced (trace (snd (watchConsulNode_go a evs c)))"
proof (cases "payload_string (Payload a)")
  case None
  with assms show ?thesis by (simp add: watchConsulNode_go_def)
next
  case (Some k)
  show ?thesis
  proof (cases "watches_Has k c")
    case True
    with Some assms show ?thesis
      by (simp add: watchConsulNode_go_def emit_fields spaced_snoc)
  next
    case False
    let ?c1 = "emit [Log Info ''Started watching node with id: %s''] (watches_Add k c)"
    from assms have "spaced (trace ?c1)" "trace ?c1 = [] \<or> \<not> is_query (last (trace ?c1))"
      by (simp_all add: emit_fields watches_Add_fields spaced_snoc)
    then have "spaced (trace (snd (snd (node_loop k evs \<lparr>WaitIndex = 1, WaitTime = 0\<rparr> ?c1))))"
      by (rule node_loop_spaced)
    with Some False show ?thesis
      by (simp add: watchConsulNode_go_def entity_deferred_spaced)
  qed
qed

text \<open>
  C3, as the code has it. In the node loop, an answer whose index equals the local one is not
  sent and is followed by the sleep of 5 seconds; an answer with a lower index is sent, and
  followed by the same sleep; so the node watch never queries twice in a row (its trace is
  spaced). In the service loop, an answer whose index is not above the local one is not
  sent, and the next iteration follows at once: the loop itself does not sleep.
\<close>

theorem unchanged_index_iteration:
  assumes "k \<in> watches (env_run env c)"
  shows "node_loop k (Poll env (QueryOk v (WaitIndex q)) # evs) q c =
           node_loop k evs q (emit [HealthNode k q, Sleep 5] (env_run env c))
       \<and> (idx < WaitIndex q \<and> \<not> send_closed (env_run env c) \<longrightarrow>
            node_loop k (Poll env (QueryOk v idx) # evs) q c =
              node_loop k evs \<lparr>WaitIndex = idx, WaitTime = 10\<rparr>
                (emit [HealthNode k q, Sleep 5]
                   ((env_run env c)\<lparr>send := send c @ [\<lparr>Type = fetchedConsulNode, Payload = v, Index = idx\<rparr>]\<rparr>)))
       \<and> (spaced (trace c) \<longrightarrow> spaced (trace (snd (watchConsulNode_go a evs c))))
       \<and> (idx \<le> WaitIndex q \<longrightarrow>
            service_loop k (Poll env (QueryOk v idx) # evs) q c =
              service_loop k evs q (emit [HealthService k q] (env_run env c)))"
proof -
  from assms have has_n: "watches_Has k (env_run env (emit [HealthNode k q] c))"
    and has_s: "watches_Has k (env_run env (emit [HealthService k q] c))"
    by (simp_all add: watches_Has_def env_run_emit emit_fields)
  have same: "node_loop k (Poll env (QueryOk v (WaitIndex q)) # evs) q c =
           node_loop k evs q (emit [HealthNode k q, Sleep 5] (env_run env c))"
    using has_n by (simp add: Let_def env_run_emit emit_emit)
  have lower: "node_loop k (Poll env (QueryOk v idx) # evs) q c =
              node_loop k evs \<lparr>WaitIndex = idx, WaitTime = 10\<rparr>
                (emit [HealthNode k q, Sleep 5]
                   ((env_run env c)\<lparr>send := send c @ [\<lparr>Type = fetchedConsulNode, Payload = v, Index = idx\<rparr>]\<rparr>))"
    if "idx < WaitIndex q" "\<not> send_closed (env_run env c)"
  proof -
    from that(1) have "idx \<noteq> WaitIndex q" by auto
    with has_n that(2) show ?thesis
      by (simp add: Let_def env_run_emit emit_emit chan_send_def emit_fields env_run_keeps)
        (simp add: emit_def)
  qed
  have service: "service_loop k (Poll env (QueryOk v idx) # evs) q c =
              service_loop k evs q (emit [HealthService k q] (env_run env c))"
    if "idx \<le> WaitIndex q"
  proof -
    from that have "\<not> WaitIndex q < idx" by (simp add: not_less)
    with has_s show ?thesis by (simp add: Let_def env_run_emit)
  qed
  from same lower service watchConsulNode_spaced [of c a evs] show ?thesis by blast
qed

theorem unchanged_index_iteration_witness:
  "node_loop ''web'' [Poll [] (QueryOk PNil 1)] q1 conn_web =
     (Running, q1,
      \<lparr>watches = {''web''}, send = [], send_closed = False,
       trace = [HealthNode ''web'' q1, Sleep 5]\<rparr>)
   \<and> node_loop ''web'' [Poll [] (QueryOk PNil 0)] q1 conn_web =
     (Running, \<lparr>WaitIndex = 0, WaitTime = 10\<rparr>,
      \<lparr>watches = {''web''},
       send = [\<lparr>Type = fetchedConsulNode, Payload = PNil, Index = 0\<rparr>], send_closed = False,
       trace = [HealthNode ''web'' q1, Sleep 5]\<rparr>)
   \<and> spaced (trace (snd (watchConsulNode_go watch_node1 [Poll [] (QueryOk PNil 1)] conn_web)))
   \<and> service_loop ''web'' [Poll [] (QueryOk PNil 0)] q1 conn_web =
     (Running, q1,
      \<lparr>watches = {''web''}, send = [], send_closed = False,
       trace = [HealthService ''web'' q1]\<rparr>)"
proof -
  have h1: "''web'' \<in> watches (env_run [] conn_web)" by (simp add: conn_web_def)
  have h2: "(0 :: 64 word) < WaitIndex q1 \<and> \<not> send_closed (env_run [] conn_web)"
    by (simp add: q1_def conn_web_def)
  have h3: "spaced (trace conn_web)" by (simp add: conn_web_def spaced_def)
  have h4: "(0 :: 64 word) \<le> WaitIndex q1" by simp
  have run: "spaced (trace (snd (watchConsulNode_go watch_node1 [Poll [] (QueryOk PNil 1)] conn_web)))"
    using unchanged_index_iteration [OF h1, where a = watch_node1
        and evs = "[Poll [] (QueryOk PNil 1)]"] h3
    by blast
  have steps: "node_loop ''web'' [Poll [] (QueryOk PNil (WaitIndex q1))] q1 conn_web =
        node_loop ''web'' [] q1 (emit [HealthNode ''web'' q1, Sleep 5] (env_run [] conn_web))
      \<and> node_loop ''web'' [Poll [] (QueryOk PNil 0)] q1 conn_web =
        node_loop ''web'' [] \<lparr>WaitIndex = 0, WaitTime = 10\<rparr>
          (emit [HealthNode ''web'' q1, Sleep 5]
             ((env_run [] conn_web)\<lparr>send := send conn_web @ [\<lparr>Type = fetchedConsulNode, Payload = PNil, Index = 0\<rparr>]\<rparr>))
      \<and> service_loop ''web'' [Poll [] (QueryOk PNil 0)] q1 conn_web =
        service_loop ''web'' [] q1 (emit [HealthService ''web'' q1] (env_run [] conn_web))"
    using unchanged_index_iteration [OF h1, where v = PNil and q = q1 and evs = "[]" and idx = 0]
      h2 h4
    by blast
  have q: "WaitIndex q1 = 1" by (simp add: q1_def)
  from steps run show ?thesis
    unfolding q by (simp add: conn_web_def emit_def)
qed

text \<open>
  The service loop has its sleep inside the branch that sends: two answers with index 1, the
  local index, give two queries in a row with no sleep between them.
\<close>

theorem service_queries_without_pause:
  "trace (snd (watchConsulService_go watch_web
      [Poll [] (QueryOk PNil 1), Poll [] (QueryOk PNil 1)] conn0)) =
     [Log Info ''Started watching service with id: %s'',
      HealthService ''web'' q1, HealthService ''web'' q1]
   \<and> \<not> spaced (trace (snd (watchConsulService_go watch_web
      [Poll [] (QueryOk PNil 1), Poll [] (QueryOk PNil 1)] conn0)))"
  by (simp add: watchConsulService_go_def watch_web_def conn0_def q1_def watches_Has_def
      watches_Add_def emit_def spaced_def)

section \<open>Leaving a watch removes its key\<close>

text \<open>
  A loop changes the watch set only through what the other goroutines do to it: after a run,
  the set is the one at the start with the operations of the iterations met, and of all of
  them when the loop is still running.
\<close>

lemma env_run_watches_cong:
  "watches c = watches d \<Longrightarrow> watches (env_run env c) = watches (env_run env d)"
proof (induction env arbitrary: c d)
  case Nil
  then show ?case by simp
next
  case (Cons e env)
  from Cons.prems have "watches (env_step e c) = watches (env_step e d)"
    by (cases e) (simp_all add: watches_Add_def watches_Remove_def)
  from Cons.IH [OF this] show ?case by simp
qed

lemma met_none:
  assumes "watches x = watches c" and "\<not> r"
  shows "\<exists>n\<le>length evs. watches x = watches (env_run (concat (map pe (take n evs))) c)
            \<and> (r \<longrightarrow> n = length evs)"
  using assms by (intro exI [of _ 0]) simp

lemma met_first:
  assumes "watches x = watches (env_run (pe e) c)" and "\<not> r"
  shows "\<exists>n\<le>length (e # evs). watches x = watches (env_run (concat (map pe (take n (e # evs)))) c)
            \<and> (r \<longrightarrow> n = length (e # evs))"
  using assms by (intro exI [of _ 1]) simp

lemma met_more:
  assumes "watches d = watches (env_run (pe e) c)"
    and "\<exists>n\<le>length evs. watches x = watches (env_run (concat (map pe (take n evs))) d)
            \<and> (r \<longrightarrow> n = length evs)"
  shows "\<exists>n\<le>length (e # evs). watches x = watches (env_run (concat (map pe (take n (e # evs)))) c)
            \<and> (r \<longrightarrow> n = length (e # evs))"
proof -
  from assms(2) obtain n where n: "n \<le> length evs"
    "watches x = watches (env_run (concat (map pe (take n evs))) d)" "r \<longrightarrow> n = length evs"
    by blast
  from assms(1) have "watches (env_run (concat (map pe (take n evs))) d) =
      watches (env_run (concat (map pe (take n evs))) (env_run (pe e) c))"
    by (rule env_run_watches_cong)
  with n(2) have "watches x = watches (env_run (concat (map pe (take (Suc n) (e # evs)))) c)"
    by (simp add: env_run_append)
  with n(1,3) show ?thesis by (intro exI [of _ "Suc n"]) simp
qed

lemma service_loop_watches:
  "\<exists>n\<le>length evs.
      watches (snd (snd (service_loop k evs q c))) =
        watches (env_run (concat (map poll_env (take n evs))) c)
      \<and> (fst (service_loop k evs q c) = Running \<longrightarrow> n = length evs)"
proof (induction evs arbitrary: q c)
  case Nil
  show ?case by simp
next
  case (Cons e evs)
  show ?case
  proof (cases e)
    case Destroy
    show ?thesis unfolding Destroy by (rule met_none) simp_all
  next
    case (Poll env r)
    let ?c1 = "env_run env (emit [HealthService k q] c)"
    have w1: "watches ?c1 = watches (env_run (poll_env e) c)"
      unfolding Poll by (simp add: env_run_emit emit_fields)
    show ?thesis
    proof (cases r)
      case (QueryError err)
      let ?d = "emit [Log Error ''connection: unable to fetch consul service info: %s'', Sleep 10] ?c1"
      have run: "service_loop k (e # evs) q c = service_loop k evs q ?d"
        unfolding Poll QueryError by simp
      from w1 have "watches ?d = watches (env_run (poll_env e) c)" by (simp add: emit_fields)
      then show ?thesis unfolding run by (rule met_more) (rule Cons.IH)
    next
      case (QueryOk v idx)
      show ?thesis
      proof (cases "watches_Has k ?c1")
        case False
        then have run: "service_loop k (e # evs) q c = (Returned, q, ?c1)"
          unfolding Poll QueryOk by (simp add: Let_def)
        show ?thesis unfolding run using w1 by (intro met_first) simp_all
      next
        case has: True
        show ?thesis
        proof (cases "WaitIndex q < idx")
          case False
          with has have run: "service_loop k (e # evs) q c = service_loop k evs q ?c1"
            unfolding Poll QueryOk by (simp add: Let_def)
          from w1 show ?thesis unfolding run by (rule met_more) (rule Cons.IH)
        next
          case True
          let ?a = "\<lparr>Type = fetchedConsulService, Payload = v, Index = idx\<rparr>"
          show ?thesis
          proof (cases "chan_send ?a ?c1")
            case None
            with has True have run: "service_loop k (e # evs) q c = (Panicked closed_channel, q, ?c1)"
              unfolding Poll QueryOk by (simp add: Let_def)
            show ?thesis unfolding run using w1 by (intro met_first) simp_all
          next
            case (Some c2)
            with has True have run: "service_loop k (e # evs) q c =
                service_loop k evs \<lparr>WaitIndex = idx, WaitTime = 10\<rparr> (emit [Sleep 5] c2)"
              unfolding Poll QueryOk by (simp add: Let_def)
            from chan_send_Some [OF Some] w1
            have "watches (emit [Sleep 5] c2) = watches (env_run (poll_env e) c)"
              by (simp add: emit_fields)
            then show ?thesis unfolding run by (rule met_more) (rule Cons.IH)
          qed
        qed
      qed
    qed
  qed
qed

lemma node_loop_watches:
  "\<exists>n\<le>length evs.
      watches (snd (snd (node_loop k evs q c))) =
        watches (env_run (concat (map poll_env (take n evs))) c)
      \<and> (fst (node_loop k evs q c) = Running \<longrightarrow> n = length evs)"
proof (induction evs arbitrary: q c)
  case Nil
  show ?case by simp
next
  case (Cons e evs)
  show ?case
  proof (cases e)
    case Destroy
    show ?thesis unfolding Destroy by (rule met_none) simp_all
  next
    case (Poll env r)
    let ?c1 = "env_run env (emit [HealthNode k q] c)"
    have w1: "watches ?c1 = watches (env_run (poll_env e) c)"
      unfolding Poll by (simp add: env_run_emit emit_fields)
    show ?thesis
    proof (cases r)
      case (QueryError err)
      let ?d = "emit [Log Error ''connection: unable to fetch consul node info: %s'', Sleep 10] ?c1"
      have run: "node_loop k (e # evs) q c = node_loop k evs q ?d"
        unfolding Poll QueryError by simp
      from w1 have "watches ?d = watches (env_run (poll_env e) c)" by (simp add: emit_fields)
      then show ?thesis unfolding run by (rule met_more) (rule Cons.IH)
    next
      case (QueryOk v idx)
      show ?thesis
      proof (cases "watches_Has k ?c1")
        case False
        then have run: "node_loop k (e # evs) q c = (Returned, q, ?c1)"
          unfolding Poll QueryOk by (simp add: Let_def)
        show ?thesis unfolding run using w1 by (intro met_first) simp_all
      next
        case has: True
        show ?thesis
        proof (cases "idx = WaitIndex q")
          case True
          with has have run: "node_loop k (e # evs) q c = node_loop k evs q (emit [Sleep 5] ?c1)"
            unfolding Poll QueryOk by (simp add: Let_def)
          from w1 have "watches (emit [Sleep 5] ?c1) = watches (env_run (poll_env e) c)"
            by (simp add: emit_fields)
          then show ?thesis unfolding run by (rule met_more) (rule Cons.IH)
        next
          case False
          let ?a = "\<lparr>Type = fetchedConsulNode, Payload = v, Index = idx\<rparr>"
          show ?thesis
          proof (cases "chan_send ?a ?c1")
            case None
            with has False have run: "node_loop k (e # evs) q c = (Panicked closed_channel, q, ?c1)"
              unfolding Poll QueryOk by (simp add: Let_def)
            show ?thesis unfolding run using w1 by (intro met_first) simp_all
          next
            case (Some c2)
            with has False have run: "node_loop k (e # evs) q c =
                node_loop k evs \<lparr>WaitIndex = idx, WaitTime = 10\<rparr> (emit [Sleep 5] c2)"
              unfolding Poll QueryOk by (simp add: Let_def)
            from chan_send_Some [OF Some] w1
            have "watches (emit [Sleep 5] c2) = watches (env_run (poll_env e) c)"
              by (simp add: emit_fields)
            then show ?thesis unfolding run by (rule met_more) (rule Cons.IH)
          qed
        qed
      qed
    qed
  qed
qed

lemma broadcast_loop_watches:
  "\<exists>n\<le>length evs.
      watches (snd (broadcast_loop k ev evs c)) =
        watches (env_run (concat (map bcast_env (take n evs))) c)
      \<and> (fst (broadcast_loop k ev evs c) = Running \<longrightarrow> n = length evs)"
proof (induction evs arbitrary: c)
  case Nil
  show ?case by simp
next
  case (Cons e evs)
  show ?case
  proof (cases e)
    case BDestroy
    show ?thesis unfolding BDestroy by (rule met_none) simp_all
  next
    case (BChange env v)
    let ?c1 = "env_run env c"
    have w1: "watches ?c1 = watches (env_run (bcast_env e) c)" unfolding BChange by simp
    show ?thesis
    proof (cases v)
      case None
      have run: "broadcast_loop k ev (e # evs) c = (Panicked interface_conversion, ?c1)"
        unfolding BChange None by simp
      show ?thesis unfolding run using w1 by (intro met_first) simp_all
    next
      case (Some channelAction)
      let ?c2 = "emit [Log Debug ''got new data for %s (WaitIndex: %d)''] ?c1"
      show ?thesis
      proof (cases "watches_Has k ?c2")
        case False
        then have run: "broadcast_loop k ev (e # evs) c =
            (Returned, emit [Log Info ''Connection is no longer subscribed to %s''] ?c2)"
          unfolding BChange Some by (simp add: Let_def)
        show ?thesis unfolding run using w1 by (intro met_first) (simp_all add: emit_fields)
      next
        case has: True
        show ?thesis
        proof (cases "Type channelAction = ev")
          case False
          let ?d = "emit [Log Debug ''Type mismatch: %s <> %s''] ?c2"
          from has False have run: "broadcast_loop k ev (e # evs) c = broadcast_loop k ev evs ?d"
            unfolding BChange Some by (simp add: Let_def)
          from w1 have "watches ?d = watches (env_run (bcast_env e) c)" by (simp add: emit_fields)
          then show ?thesis unfolding run by (rule met_more) (rule Cons.IH)
        next
          case same: True
          let ?c3 = "emit [Log Debug ''Publishing change %s %s''] ?c2"
          show ?thesis
          proof (cases "chan_send channelAction ?c3")
            case None
            with has same have run: "broadcast_loop k ev (e # evs) c = (Panicked closed_channel, ?c3)"
              unfolding BChange Some by (simp add: Let_def)
            show ?thesis unfolding run using w1 by (intro met_first) (simp_all add: emit_fields)
          next
            case sent: (Some c4)
            with has same have run: "broadcast_loop k ev (e # evs) c = broadcast_loop k ev evs c4"
              unfolding BChange Some by (simp add: Let_def)
            from chan_send_Some [OF sent] w1
            have "watches c4 = watches (env_run (bcast_env e) c)" by (simp add: emit_fields)
            then show ?thesis unfolding run by (rule met_more) (rule Cons.IH)
          qed
        qed
      qed
    qed
  qed
qed

lemma entity_deferred_result:
  "fst (entity_deferred k msg r) = fst r"
  "watches (snd (entity_deferred k msg r)) =
     (if fst r = Running then watches (snd (snd r)) else watches (snd (snd r)) - {k})"
  by (cases r; cases "fst r"; auto simp: emit_fields watches_Remove_fields)+

lemma broadcast_deferred_result:
  "fst (broadcast_deferred k r) = (if fst r = Running then Running else Returned)"
  "watches (snd (broadcast_deferred k r)) =
     (if fst r = Running then watches (snd r) else watches (snd r) - {k})"
  by (cases r; cases "fst r"; auto simp: emit_fields watches_Remove_fields)+

text \<open>
  C5. A watch whose key is not yet in the watch set adds it: with nothing met yet the watch is
  in its loop and the key is in the set (for the broadcast watch, when the channel is open; on
  a closed channel it leaves at once). The destroy signal makes it return. And however it
  leaves its loop, by a return or by a panic, after any schedule, the watch set is then the
  one with the key added, changed by what the other goroutines did in the iterations met,
  with the key removed; so the key is out of the set, also when another goroutine had put it
  back. While the watch runs, the set is the same without the removal. Removing a key that
  is not in the set changes nothing.
\<close>

theorem exit_removes_key:
  assumes "k \<notin> watches c" and "payload_string (Payload a) = Some k"
  shows "fst (watchConsulService_go a [] c) = Running
       \<and> watches (snd (watchConsulService_go a [] c)) = insert k (watches c)
       \<and> fst (watchConsulNode_go a [] c) = Running
       \<and> watches (snd (watchConsulNode_go a [] c)) = insert k (watches c)
       \<and> (\<not> send_closed c \<longrightarrow>
            fst (watchGenericBroadcast k ev [] initial c) = Running
            \<and> watches (snd (watchGenericBroadcast k ev [] initial c)) = insert k (watches c))
       \<and> fst (watchConsulService_go a (Destroy # evs) c) = Returned
       \<and> fst (watchConsulNode_go a (Destroy # evs) c) = Returned
       \<and> fst (watchGenericBroadcast k ev (BDestroy # changes) initial c) = Returned
       \<and> (\<exists>n\<le>length evs.
            watches (snd (watchConsulService_go a evs c)) =
              (if fst (watchConsulService_go a evs c) = Running
               then watches (env_run (concat (map poll_env (take n evs))) (watches_Add k c))
               else watches (env_run (concat (map poll_env (take n evs))) (watches_Add k c)) - {k})
            \<and> (fst (watchConsulService_go a evs c) = Running \<longrightarrow> n = length evs))
       \<and> (\<exists>n\<le>length evs.
            watches (snd (watchConsulNode_go a evs c)) =
              (if fst (watchConsulNode_go a evs c) = Running
               then watches (env_run (concat (map poll_env (take n evs))) (watches_Add k c))
               else watches (env_run (concat (map poll_env (take n evs))) (watches_Add k c)) - {k})
            \<and> (fst (watchConsulNode_go a evs c) = Running \<longrightarrow> n = length evs))
       \<and> (\<exists>n\<le>length changes.
            watches (snd (watchGenericBroadcast k ev changes initial c)) =
              (if fst (watchGenericBroadcast k ev changes initial c) = Running
               then watches (env_run (concat (map bcast_env (take n changes))) (watches_Add k c))
               else watches (env_run (concat (map bcast_env (take n changes))) (watches_Add k c)) - {k})
            \<and> (fst (watchGenericBroadcast k ev changes initial c) = Running \<longrightarrow> n = length changes))
       \<and> (fst (watchConsulService_go a evs c) \<noteq> Running \<longrightarrow>
            k \<notin> watches (snd (watchConsulService_go a evs c)))
       \<and> (fst (watchConsulNode_go a evs c) \<noteq> Running \<longrightarrow>
            k \<notin> watches (snd (watchConsulNode_go a evs c)))
       \<and> (fst (watchGenericBroadcast k ev changes initial c) \<noteq> Running \<longrightarrow>
            k \<notin> watches (snd (watchGenericBroadcast k ev changes initial c)))
       \<and> watches_Remove k c = c"
proof -
  let ?q = "\<lparr>WaitIndex = 1, WaitTime = 0\<rparr>"
  let ?s1 = "emit [Log Info ''Started watching service with id: %s''] (watches_Add k c)"
  let ?n1 = "emit [Log Info ''Started watching node with id: %s''] (watches_Add k c)"
  let ?snap = "\<lparr>Type = ev, Payload = initial, Index = 0\<rparr>"
  let ?b1 = "emit [Log Debug ''Sending our current %s list''] (watches_Add k c)"
  let ?b3 = "emit [Log Debug ''Started watching %s''] (?b1\<lparr>send := send ?b1 @ [?snap]\<rparr>)"
  from assms have run_s: "watchConsulService_go a xs c =
      entity_deferred k ''Stopped watching service with id: %s'' (service_loop k xs ?q ?s1)" for xs
    by (simp add: watchConsulService_go_def watches_Has_def)
  from assms have run_n: "watchConsulNode_go a xs c =
      entity_deferred k ''Stopped watching node with id: %s'' (node_loop k xs ?q ?n1)" for xs
    by (simp add: watchConsulNode_go_def watches_Has_def)
  from assms have run_b: "watchGenericBroadcast k ev xs initial c =
      broadcast_deferred k
        (if send_closed c then (Panicked closed_channel, ?b1) else broadcast_loop k ev xs ?b3)" for xs
    by (simp add: watchGenericBroadcast_def watches_Has_def chan_send_def emit_fields
        watches_Add_fields)
  have ws: "watches ?s1 = watches (watches_Add k c)" and wn: "watches ?n1 = watches (watches_Add k c)"
    and wb1: "watches ?b1 = watches (watches_Add k c)" and wb3: "watches ?b3 = watches (watches_Add k c)"
    by (simp_all add: emit_fields)
  have start_s: "fst (watchConsulService_go a [] c) = Running
      \<and> watches (snd (watchConsulService_go a [] c)) = insert k (watches c)"
    unfolding run_s by (simp add: emit_fields watches_Add_fields)
  have start_n: "fst (watchConsulNode_go a [] c) = Running
      \<and> watches (snd (watchConsulNode_go a [] c)) = insert k (watches c)"
    unfolding run_n by (simp add: emit_fields watches_Add_fields)
  have start_b: "fst (watchGenericBroadcast k ev [] initial c) = Running
      \<and> watches (snd (watchGenericBroadcast k ev [] initial c)) = insert k (watches c)"
    if "\<not> send_closed c"
    unfolding run_b using that by (simp add: emit_fields watches_Add_fields)
  have stop_s: "fst (watchConsulService_go a (Destroy # evs) c) = Returned"
    unfolding run_s by simp
  have stop_n: "fst (watchConsulNode_go a (Destroy # evs) c) = Returned"
    unfolding run_n by simp
  have stop_b: "fst (watchGenericBroadcast k ev (BDestroy # changes) initial c) = Returned"
    unfolding run_b by simp
  have all_s: "\<exists>n\<le>length evs.
      watches (snd (watchConsulService_go a evs c)) =
        (if fst (watchConsulService_go a evs c) = Running
         then watches (env_run (concat (map poll_env (take n evs))) (watches_Add k c))
         else watches (env_run (concat (map poll_env (take n evs))) (watches_Add k c)) - {k})
      \<and> (fst (watchConsulService_go a evs c) = Running \<longrightarrow> n = length evs)"
  proof -
    from service_loop_watches [of evs k ?q ?s1] obtain n where n: "n \<le> length evs"
      "watches (snd (snd (service_loop k evs ?q ?s1))) =
         watches (env_run (concat (map poll_env (take n evs))) ?s1)"
      "fst (service_loop k evs ?q ?s1) = Running \<longrightarrow> n = length evs"
      by blast
    from n(2) env_run_watches_cong [OF ws]
    have "watches (snd (snd (service_loop k evs ?q ?s1))) =
        watches (env_run (concat (map poll_env (take n evs))) (watches_Add k c))"
      by simp
    with n(1,3) show ?thesis
      unfolding run_s entity_deferred_result by (intro exI [of _ n]) simp
  qed
  have all_n: "\<exists>n\<le>length evs.
      watches (snd (watchConsulNode_go a evs c)) =
        (if fst (watchConsulNode_go a evs c) = Running
         then watches (env_run (concat (map poll_env (take n evs))) (watches_Add k c))
         else watches (env_run (concat (map poll_env (take n evs))) (watches_Add k c)) - {k})
      \<and> (fst (watchConsulNode_go a evs c) = Running \<longrightarrow> n = length evs)"
  proof -
    from node_loop_watches [of evs k ?q ?n1] obtain n where n: "n \<le> length evs"
      "watches (snd (snd (node_loop k evs ?q ?n1))) =
         watches (env_run (concat (map poll_env (take n evs))) ?n1)"
      "fst (node_loop k evs ?q ?n1) = Running \<longrightarrow> n = length evs"
      by blast
    from n(2) env_run_watches_cong [OF wn]
    have "watches (snd (snd (node_loop k evs ?q ?n1))) =
        watches (env_run (concat (map poll_env (take n evs))) (watches_Add k c))"
      by simp
    with n(1,3) show ?thesis
      unfolding run_n entity_deferred_result by (intro exI [of _ n]) simp
  qed
  have all_b: "\<exists>n\<le>length changes.
      watches (snd (watchGenericBroadcast k ev changes initial c)) =
        (if fst (watchGenericBroadcast k ev changes initial c) = Running
         then watches (env_run (concat (map bcast_env (take n changes))) (watches_Add k c))
         else watches (env_run (concat (map bcast_env (take n changes))) (watches_Add k c)) - {k})
      \<and> (fst (watchGenericBroadcast k ev changes initial c) = Running \<longrightarrow> n = length changes)"
  proof (cases "send_closed c")
    case True
    then show ?thesis
      unfolding run_b broadcast_deferred_result
      by (intro exI [of _ 0]) (simp add: emit_fields)
  next
    case False
    from broadcast_loop_watches [of changes k ev ?b3] obtain n where n: "n \<le> length changes"
      "watches (snd (broadcast_loop k ev changes ?b3)) =
         watches (env_run (concat (map bcast_env (take n changes))) ?b3)"
      "fst (broadcast_loop k ev changes ?b3) = Running \<longrightarrow> n = length changes"
      by blast
    from n(2) env_run_watches_cong [OF wb3]
    have "watches (snd (broadcast_loop k ev changes ?b3)) =
        watches (env_run (concat (map bcast_env (take n changes))) (watches_Add k c))"
      by simp
    with n(1,3) False show ?thesis
      unfolding run_b broadcast_deferred_result by (intro exI [of _ n]) simp
  qed
  have out_s: "k \<notin> watches (snd (watchConsulService_go a evs c))"
    if "fst (watchConsulService_go a evs c) \<noteq> Running"
    using that unfolding run_s entity_deferred_result by simp
  have out_n: "k \<notin> watches (snd (watchConsulNode_go a evs c))"
    if "fst (watchConsulNode_go a evs c) \<noteq> Running"
    using that unfolding run_n entity_deferred_result by simp
  have out_b: "k \<notin> watches (snd (watchGenericBroadcast k ev changes initial c))"
    if "fst (watchGenericBroadcast k ev changes initial c) \<noteq> Running"
    using that unfolding run_b broadcast_deferred_result by (simp split: if_splits)
  from assms(1) have safe: "watches_Remove k c = c" by (simp add: watches_Remove_def)
  from start_s start_n start_b stop_s stop_n stop_b all_s all_n all_b out_s out_n out_b safe
  show ?thesis by blast
qed

theorem exit_removes_key_witness:
  "fst (watchConsulService_go watch_web [] conn0) = Running
   \<and> watches (snd (watchConsulService_go watch_web [] conn0)) = {''web''}
   \<and> fst (watchGenericBroadcast ''web'' fetchedConsulServices [] PNil conn0) = Running
   \<and> watches (snd (watchGenericBroadcast ''web'' fetchedConsulServices [] PNil conn0)) = {''web''}
   \<and> fst (watchGenericBroadcast ''web'' fetchedConsulServices
        [BChange [EnvRemove ''web''] (Some watch_web)] PNil conn0) = Returned
   \<and> ''web'' \<notin> watches (snd (watchGenericBroadcast ''web'' fetchedConsulServices
        [BChange [EnvRemove ''web''] (Some watch_web)] PNil conn0))
   \<and> fst (watchConsulService_go watch_web [Poll [] (QueryError ''timeout''), Destroy] conn0) = Returned
   \<and> ''web'' \<notin> watches (snd (watchConsulService_go watch_web
        [Poll [] (QueryError ''timeout''), Destroy] conn0))
   \<and> fst (watchConsulNode_go watch_web
        [Poll [EnvAdd ''db'', EnvRemove ''web'', EnvAdd ''web'', EnvCloseSend] (QueryOk PNil 2)] conn0) =
       Panicked closed_channel
   \<and> watches (snd (watchConsulNode_go watch_web
        [Poll [EnvAdd ''db'', EnvRemove ''web'', EnvAdd ''web'', EnvCloseSend] (QueryOk PNil 2)] conn0)) =
       {''db''}"
proof -
  let ?changes = "[BChange [EnvRemove ''web''] (Some watch_web)]"
  let ?evs = "[Poll [] (QueryError ''timeout''), Destroy]"
  let ?polls = "[Poll [EnvAdd ''db'', EnvRemove ''web'', EnvAdd ''web'', EnvCloseSend] (QueryOk PNil 2)]"
  have h1: "''web'' \<notin> watches conn0" by (simp add: conn0_def)
  have h2: "payload_string (Payload watch_web) = Some ''web''" by (simp add: watch_web_def)
  have h3: "\<not> send_closed conn0" by (simp add: conn0_def)
  have o1: "fst (watchGenericBroadcast ''web'' fetchedConsulServices ?changes PNil conn0) = Returned"
    by (simp add: watchGenericBroadcast_def watch_web_def conn0_def watches_Has_def
        watches_Add_def watches_Remove_def emit_def chan_send_def)
  have o2: "fst (watchConsulService_go watch_web ?evs conn0) = Returned"
    by (simp add: watchConsulService_go_def watch_web_def conn0_def watches_Has_def
        watches_Add_def emit_def)
  have o3: "fst (watchConsulNode_go watch_web ?polls conn0) = Panicked closed_channel"
    by (simp add: watchConsulNode_go_def watch_web_def conn0_def watches_Has_def
        watches_Add_def watches_Remove_def emit_def chan_send_def)
  note A = exit_removes_key [OF h1 h2, where ev = fetchedConsulServices
      and changes = ?changes and initial = PNil and evs = ?evs]
  note B = exit_removes_key [OF h1 h2, where ev = fetchedConsulServices
      and changes = "[]" and initial = PNil and evs = ?polls]
  from A h3 have start: "fst (watchConsulService_go watch_web [] conn0) = Running
      \<and> watches (snd (watchConsulService_go watch_web [] conn0)) = {''web''}
      \<and> fst (watchGenericBroadcast ''web'' fetchedConsulServices [] PNil conn0) = Running
      \<and> watches (snd (watchGenericBroadcast ''web'' fetchedConsulServices [] PNil conn0)) = {''web''}"
    by (simp add: conn0_def)
  from A o1 o2 have gone: "''web'' \<notin> watches (snd (watchGenericBroadcast ''web'' fetchedConsulServices
        ?changes PNil conn0))
      \<and> ''web'' \<notin> watches (snd (watchConsulService_go watch_web ?evs conn0))"
    by simp
  have readded: "watches (snd (watchConsulNode_go watch_web ?polls conn0)) = {''db''}"
  proof -
    from B o3 have "''web'' \<notin> watches (snd (watchConsulNode_go watch_web ?polls conn0))"
      by simp
    moreover have "watches (snd (watchConsulNode_go watch_web ?polls conn0)) \<subseteq> {''db'', ''web''}"
      by (simp add: watchConsulNode_go_def watch_web_def conn0_def watches_Has_def
          watches_Add_def watches_Remove_def emit_def chan_send_def)
    moreover have "''db'' \<in> watches (snd (watchConsulNode_go watch_web ?polls conn0))"
      by (simp add: watchConsulNode_go_def watch_web_def conn0_def watches_Has_def
          watches_Add_def watches_Remove_def emit_def chan_send_def)
    ultimately show ?thesis by auto
  qed
  from start gone o1 o2 o3 readded show ?thesis by blast
qed

end
